theory Spec2Isabelle
  imports Complex_Main "HOL-Library.AList" "HOL-Library.Multiset"
begin

section \<open>Hybrid search engine of the KBLI 2020 matcher\<close>

text \<open>
  A shallow embedding of \<^verbatim>\<open>src/backend/hybrid_search.py\<close>: the BM25 index, the local
  vector store, reciprocal rank fusion, the semantic re-ranker and the engine that chains
  them.

  Conventions of the embedding.
  \<^item> Python floats are modelled as \<^typ>\<open>real\<close>: rounding, infinities and NaN are not
    modelled.
  \<^item> Result counts (\<^verbatim>\<open>top_k\<close>, \<^verbatim>\<open>retrieval_top_k\<close>) and the fusion constant
    \<^verbatim>\<open>k\<close> are natural numbers; Python's negative slice bounds are not modelled.
  \<^item> A Python dict is an association list in insertion order with unique keys:
    \<^const>\<open>map_of\<close> is \<^verbatim>\<open>d.get\<close>, \<^const>\<open>AList.update\<close> is \<^verbatim>\<open>d[k] = v\<close> (in place
    for a known key, appended for a new one), \<^const>\<open>AList.delete\<close> is
    \<^verbatim>\<open>d.pop(k, None)\<close>.
  \<^item> \<^verbatim>\<open>sorted(xs, key=f, reverse=True)\<close> and \<^verbatim>\<open>xs.sort(key=f, reverse=True)\<close> are
    stable sorts in descending key order: \<^term>\<open>sort_key (\<lambda>x. - f x) xs\<close>.
  \<^item> Every exception the code can raise is a value of \<open>py_error\<close>; a function that can
    raise returns \<open>py_error + 'a\<close>.
\<close>

datatype py_error = ZeroDivisionError | IndexError | TypeError | ValueError | ProviderError

type_synonym ranking = "(nat \<times> real) list"

definition sorted_desc :: "real list \<Rightarrow> bool" where
  "sorted_desc xs = sorted_wrt (\<lambda>a b. b \<le> a) xs"


subsection \<open>Values, documents and the outside world\<close>

text \<open>
  Documents are the dicts of \<^verbatim>\<open>kbli_parsed_fast.json\<close>; their field values, and
  the values the engine and the judge attach to candidates, are JSON scalars. Nested
  arrays and objects do not occur as field values and are not modelled.
\<close>

datatype pyval = PNone | PBool bool | PInt int | PFloat real | PStr string

type_synonym pydict = "(string \<times> pyval) list"

text \<open>
  The reply of the judge as the re-ranker sees it after \<^verbatim>\<open>json.loads\<close> and
  \<^verbatim>\<open>result.get("rankings", [])\<close>. \<open>JudgeError\<close> stands for every exception raised between
  the request and the start of the mapping loop: the call itself, a missing message, text
  that is not JSON, JSON that is not an object, rankings that cannot be sliced. An entry
  of the rankings is a dict (\<open>RankDict\<close>) or something without \<^verbatim>\<open>.get\<close> (\<open>NotADict\<close>).
\<close>

datatype rank_item = RankDict pydict | NotADict

datatype judge_reply = JudgeError | JudgeRankings "rank_item list"

text \<open>
  What the program takes from outside the repository, as functions of what it sends:
  Python's \<^verbatim>\<open>str()\<close> of a value that is not a string, numpy's \<^verbatim>\<open>argsort\<close>, the
  embedding provider (\<open>None\<close> when the request raises) and the judge. The judge receives
  the query and, per candidate, the number, code, truncated title and truncated coverage
  that the prompt renders. Every theorem holds for every such environment.
\<close>

record env =
  py_str :: "pyval \<Rightarrow> string"
  np_argsort :: "real list \<Rightarrow> nat list"
  get_embedding :: "string \<Rightarrow> real list option"
  judge :: "string \<Rightarrow> (nat \<times> pyval \<times> string \<times> string) list \<Rightarrow> judge_reply"

text \<open>\<^verbatim>\<open>d.get(key, default)\<close> and \<^verbatim>\<open>str(v)\<close>.\<close>

definition dict_get :: "pydict \<Rightarrow> string \<Rightarrow> pyval \<Rightarrow> pyval" where
  "dict_get d key dflt = (case map_of d key of None \<Rightarrow> dflt | Some v \<Rightarrow> v)"

definition str_of :: "env \<Rightarrow> pyval \<Rightarrow> string" where
  "str_of e v = (case v of PStr s \<Rightarrow> s | _ \<Rightarrow> py_str e v)"

text \<open>\<^verbatim>\<open>sep.join(parts)\<close>.\<close>

fun join :: "string \<Rightarrow> string list \<Rightarrow> string" where
  "join sep [] = []"
| "join sep [x] = x"
| "join sep (x # y # ys) = x @ sep @ join sep (y # ys)"

subsection \<open>BM25\<close>

text \<open>
  The tokenizer lower-cases the text and takes \<^verbatim>\<open>re.findall(r'\b[a-z0-9]+\b', text)\<close>:
  the maximal runs of word characters that consist of \<^verbatim>\<open>a-z\<close> and digits only (a run
  holding an underscore or an accented letter has no word boundary inside, so it yields
  no token at all), and keeps those longer than one character. The model is exact on
  ASCII text; a character above 127 is read as a letter outside \<^verbatim>\<open>a-z\<close>.
\<close>

definition ascii_upper :: string where
  "ascii_upper = ''ABCDEFGHIJKLMNOPQRSTUVWXYZ''"

definition ascii_lower :: string where
  "ascii_lower = ''abcdefghijklmnopqrstuvwxyz''"

definition ascii_digits :: string where
  "ascii_digits = ''0123456789''"

definition lower_char :: "char \<Rightarrow> char" where
  "lower_char c = (case map_of (zip ascii_upper ascii_lower) c of None \<Rightarrow> c | Some l \<Rightarrow> l)"

definition is_az09 :: "char \<Rightarrow> bool" where
  "is_az09 c = (c \<in> set (ascii_lower @ ascii_digits))"

definition is_word_char :: "char \<Rightarrow> bool" where
  "is_word_char c =
     (c \<in> set (ascii_lower @ ascii_upper @ ascii_digits @ ''_'') \<or> digit7 c)"

fun word_runs :: "string \<Rightarrow> string \<Rightarrow> string list" where
  "word_runs cur [] = (if cur = [] then [] else [cur])"
| "word_runs cur (c # cs) =
     (if is_word_char c then word_runs (cur @ [c]) cs
      else (if cur = [] then [] else [cur]) @ word_runs [] cs)"

definition tokenize :: "string \<Rightarrow> string list" where
  "tokenize text =
     (if text = [] then []
      else let tokens = filter (list_all is_az09) (word_runs [] (map lower_char text))
           in filter (\<lambda>t. length t > 1) tokens)"

record bm25_index =
  k1 :: real
  b_param :: real
  corpus_size :: nat
  avgdl :: real
  doc_freqs :: "string \<rightharpoonup> nat"
  idf :: "string \<rightharpoonup> real"
  doc_len :: "nat list"
  bm25_documents :: "string list list"
  original_docs :: "pydict list"

text \<open>\<^verbatim>\<open>BM25(k1, b)\<close>; the engine constructs \<^verbatim>\<open>BM25()\<close> with the defaults 1.5 and 0.75.\<close>

definition BM25 :: "real \<Rightarrow> real \<Rightarrow> bm25_index" where
  "BM25 k1_arg b_arg =
     \<lparr>k1 = k1_arg, b_param = b_arg, corpus_size = 0, avgdl = 0, doc_freqs = Map.empty,
      idf = Map.empty, doc_len = [], bm25_documents = [], original_docs = []\<rparr>"

definition default_text_fields :: "string list" where
  "default_text_fields = [''judul'', ''hierarki'', ''cakupan'']"

text \<open>\<^verbatim>\<open>" ".join(str(doc.get(f, "")) for f in text_fields)\<close>.\<close>

definition combined_text :: "env \<Rightarrow> string list \<Rightarrow> pydict \<Rightarrow> string" where
  "combined_text e text_fields doc =
     join '' '' (map (\<lambda>f. str_of e (dict_get doc f (PStr ''''))) text_fields)"

text \<open>
  The document-frequency loop: for every document, every token of \<^verbatim>\<open>set(tokens)\<close> is
  counted once (\<^verbatim>\<open>doc_freqs.get(token, 0) + 1\<close>).
\<close>

definition bump :: "string \<Rightarrow> (string \<rightharpoonup> nat) \<Rightarrow> (string \<rightharpoonup> nat)" where
  "bump token df = df(token \<mapsto> (case df token of None \<Rightarrow> 0 | Some n \<Rightarrow> n) + 1)"

definition count_doc_freqs :: "string list list \<Rightarrow> (string \<rightharpoonup> nat)" where
  "count_doc_freqs docs = fold (\<lambda>tokens df. fold bump (remdups tokens) df) docs Map.empty"

text \<open>The argument of the logarithm and the smoothed inverse document frequency.\<close>

definition idf_argument :: "nat \<Rightarrow> nat \<Rightarrow> real" where
  "idf_argument n df = (real n - real df + 0.5) / (real df + 0.5) + 1"

definition idf_of :: "nat \<Rightarrow> (string \<rightharpoonup> nat) \<Rightarrow> (string \<rightharpoonup> real)" where
  "idf_of n dfs = (\<lambda>term. case dfs term of None \<Rightarrow> None | Some df \<Rightarrow> Some (ln (idf_argument n df)))"

definition fit :: "env \<Rightarrow> bm25_index \<Rightarrow> pydict list \<Rightarrow> string list option \<Rightarrow> bm25_index" where
  "fit e self documents text_fields_arg =
     (let text_fields = (case text_fields_arg of None \<Rightarrow> default_text_fields | Some fs \<Rightarrow> fs);
          n = length documents;
          tokenized = map (\<lambda>doc. tokenize (combined_text e text_fields doc)) documents;
          lens = map length tokenized;
          dfs = count_doc_freqs tokenized
      in self\<lparr>original_docs := documents, corpus_size := n, bm25_documents := tokenized,
              doc_len := lens,
              avgdl := (if n > 0 then real (sum_list lens) / real n else 0),
              doc_freqs := dfs, idf := idf_of n dfs\<rparr>)"

text \<open>
  \<^verbatim>\<open>_score_document\<close>: the loop over the query terms, with the running score. Both
  divisions raise \<^verbatim>\<open>ZeroDivisionError\<close> on a zero divisor.
\<close>

fun score_terms :: "bm25_index \<Rightarrow> string list \<Rightarrow> nat \<Rightarrow> string list \<Rightarrow> real \<Rightarrow> py_error + real" where
  "score_terms self doc_tokens dl [] score = Inr score"
| "score_terms self doc_tokens dl (term # rest) score =
     (case idf self term of
        None \<Rightarrow> score_terms self doc_tokens dl rest score
      | Some idf_term \<Rightarrow>
          (let tf = count_list doc_tokens term in
           if tf = 0 then score_terms self doc_tokens dl rest score
           else if avgdl self = 0 then Inl ZeroDivisionError
           else
             let numerator = real tf * (k1 self + 1);
                 denominator =
                   real tf + k1 self * (1 - b_param self + b_param self * (real dl / avgdl self))
             in if denominator = 0 then Inl ZeroDivisionError
                else score_terms self doc_tokens dl rest
                       (score + idf_term * (numerator / denominator))))"

definition score_document :: "bm25_index \<Rightarrow> string list \<Rightarrow> string list \<Rightarrow> nat \<Rightarrow> py_error + real" where
  "score_document self query_tokens doc_tokens dl = score_terms self doc_tokens dl query_tokens 0"

text \<open>
  The scoring loop of \<^verbatim>\<open>search\<close> over \<^verbatim>\<open>enumerate(self.documents)\<close>, from index
  \<open>idx\<close> on; \<^verbatim>\<open>self.doc_len[idx]\<close> raises \<^verbatim>\<open>IndexError\<close> out of range.
\<close>

fun collect_scores :: "bm25_index \<Rightarrow> string list \<Rightarrow> nat \<Rightarrow> string list list \<Rightarrow> py_error + ranking" where
  "collect_scores self query_tokens idx [] = Inr []"
| "collect_scores self query_tokens idx (doc_tokens # rest) =
     (if length (doc_len self) \<le> idx then Inl IndexError
      else case score_document self query_tokens doc_tokens (doc_len self ! idx) of
             Inl err \<Rightarrow> Inl err
           | Inr score \<Rightarrow>
               (case collect_scores self query_tokens (Suc idx) rest of
                  Inl err \<Rightarrow> Inl err
                | Inr scores \<Rightarrow> Inr (if score > 0 then (idx, score) # scores else scores)))"

definition bm25_search :: "bm25_index \<Rightarrow> string \<Rightarrow> nat \<Rightarrow> py_error + ranking" where
  "bm25_search self query top_k =
     (let query_tokens = tokenize query in
      if query_tokens = [] then Inr []
      else case collect_scores self query_tokens 0 (bm25_documents self) of
             Inl err \<Rightarrow> Inl err
           | Inr scores \<Rightarrow> Inr (take top_k (sort_key (\<lambda>x. - snd x) scores)))"

text \<open>
  Vocabulary of the index claims: the count a dict of document frequencies holds for a
  term (zero when absent) and the number of documents that contain a term.
\<close>

definition df_val :: "(string \<rightharpoonup> nat) \<Rightarrow> string \<Rightarrow> nat" where
  "df_val df t = (case df t of None \<Rightarrow> 0 | Some n \<Rightarrow> n)"

definition df_count :: "string list list \<Rightarrow> string \<Rightarrow> nat" where
  "df_count docs t = length (filter (\<lambda>tokens. t \<in> set tokens) docs)"

subsection \<open>Local vector store\<close>

text \<open>
  The embedding matrix is the list of its rows; \<open>None\<close> is the \<^verbatim>\<open>None\<close> the constructor
  leaves until an index is built.
\<close>

record vector_store_state =
  embeddings :: "real list list option"
  vs_documents :: "pydict list"
  vs_is_ready :: bool

text \<open>\<^verbatim>\<open>LocalVectorStore(client)\<close>.\<close>

definition LocalVectorStore :: vector_store_state where
  "LocalVectorStore = \<lparr>embeddings = None, vs_documents = [], vs_is_ready = False\<rparr>"

definition l2_norm :: "real list \<Rightarrow> real" where
  "l2_norm v = sqrt (sum_list (map (\<lambda>x. x * x) v))"

text \<open>\<^verbatim>\<open>v / (np.linalg.norm(v) + 1e-10)\<close>.\<close>

definition normalize :: "real list \<Rightarrow> real list" where
  "normalize v = map (\<lambda>x. x / (l2_norm v + 1 / 10 ^ 10)) v"

definition dot :: "real list \<Rightarrow> real list \<Rightarrow> real" where
  "dot u v = sum_list (map2 (*) u v)"

text \<open>
  \<^verbatim>\<open>search\<close>: an empty list when the store is not ready; a failing embedding request
  propagates; \<^verbatim>\<open>np.dot\<close> raises \<^verbatim>\<open>TypeError\<close> on a missing matrix and
  \<^verbatim>\<open>ValueError\<close> when the rows do not have the dimension of the query embedding; the
  result pairs the first \<open>top_k\<close> indices of the reversed argsort with their similarities.
\<close>

definition vector_search :: "env \<Rightarrow> vector_store_state \<Rightarrow> string \<Rightarrow> nat \<Rightarrow> py_error + ranking" where
  "vector_search e self query top_k =
     (if \<not> vs_is_ready self then Inr []
      else case get_embedding e query of
             None \<Rightarrow> Inl ProviderError
           | Some raw \<Rightarrow>
               (let query_embedding = normalize raw in
                case embeddings self of
                  None \<Rightarrow> Inl TypeError
                | Some rows \<Rightarrow>
                    if \<not> list_all (\<lambda>row. length row = length query_embedding) rows
                    then Inl ValueError
                    else
                      let similarities = map (\<lambda>row. dot row query_embedding) rows;
                          top_indices = take top_k (rev (np_argsort e similarities))
                      in if list_all (\<lambda>idx. idx < length similarities) top_indices
                         then Inr (map (\<lambda>idx. (idx, similarities ! idx)) top_indices)
                         else Inl IndexError))"

text \<open>
  The similarities a ready store computes for a raw query embedding, and numpy's contract
  for \<^verbatim>\<open>argsort\<close>: a permutation of the indices that lists the values in ascending
  order. The default sort kind is not stable, so the contract says nothing about the order
  of equal values.
\<close>

definition similarities_of :: "real list list \<Rightarrow> real list \<Rightarrow> real list" where
  "similarities_of rows raw = map (\<lambda>row. dot row (normalize raw)) rows"

definition argsort_contract :: "(real list \<Rightarrow> nat list) \<Rightarrow> bool" where
  "argsort_contract f =
     (\<forall>xs. mset (f xs) = mset [0..<length xs] \<and> sorted (map (\<lambda>i. xs ! i) (f xs)))"

text \<open>The result list for given similarities and a given argsort order.\<close>

definition top_of :: "real list \<Rightarrow> nat list \<Rightarrow> nat \<Rightarrow> ranking" where
  "top_of sims order top_k = map (\<lambda>idx. (idx, sims ! idx)) (take top_k (rev order))"

text \<open>
  Vocabulary of the tie-break claim: entries of equal similarity in ascending, or in
  descending, index order.
\<close>

definition ties_ascending :: "ranking \<Rightarrow> bool" where
  "ties_ascending rs = sorted_wrt (\<lambda>a b. snd a = snd b \<longrightarrow> fst a < fst b) rs"

definition ties_descending :: "ranking \<Rightarrow> bool" where
  "ties_descending rs = sorted_wrt (\<lambda>a b. snd a = snd b \<longrightarrow> fst b < fst a) rs"

definition keeps_ties_in_order :: "real list \<Rightarrow> nat list \<Rightarrow> bool" where
  "keeps_ties_in_order xs order = sorted_wrt (\<lambda>i j. xs ! i = xs ! j \<longrightarrow> i < j) order"

subsection \<open>Reciprocal rank fusion\<close>

text \<open>
  One pass of the inner loop body: \<^verbatim>\<open>if doc_id not in rrf_scores: rrf_scores[doc_id] = 0.0\<close>
  followed by \<^verbatim>\<open>rrf_scores[doc_id] += 1.0 / (k + rank + 1)\<close>.
\<close>

definition rrf_add :: "nat \<Rightarrow> nat \<Rightarrow> nat \<Rightarrow> ranking \<Rightarrow> ranking" where
  "rrf_add k rank doc_id rrf_scores =
     (let rrf_scores1 =
            (if map_of rrf_scores doc_id = None then AList.update doc_id 0 rrf_scores
             else rrf_scores)
      in case map_of rrf_scores1 doc_id of
           Some s \<Rightarrow> AList.update doc_id (s + 1 / real (k + rank + 1)) rrf_scores1
         | None \<Rightarrow> rrf_scores1)"

text \<open>\<^verbatim>\<open>for rank, (doc_id, _) in enumerate(ranking)\<close>, from position \<open>rank\<close> on.\<close>

fun rrf_ranking :: "nat \<Rightarrow> nat \<Rightarrow> ranking \<Rightarrow> ranking \<Rightarrow> ranking" where
  "rrf_ranking k rank [] rrf_scores = rrf_scores"
| "rrf_ranking k rank ((doc_id, _) # rest) rrf_scores =
     rrf_ranking k (Suc rank) rest (rrf_add k rank doc_id rrf_scores)"

definition rrf_scores_of :: "ranking list \<Rightarrow> nat \<Rightarrow> ranking" where
  "rrf_scores_of rankings k = fold (rrf_ranking k 0) rankings []"

definition reciprocal_rank_fusion :: "ranking list \<Rightarrow> nat \<Rightarrow> ranking" where
  "reciprocal_rank_fusion rankings k =
     sort_key (\<lambda>x. - snd x) (rrf_scores_of rankings k)"

text \<open>
  Vocabulary of the fusion claims: the 0-based position of the first occurrence of a
  document in a list, and the documents a ranked list names.
\<close>

fun first_index :: "nat list \<Rightarrow> nat \<Rightarrow> nat" where
  "first_index [] d = 0"
| "first_index (x # xs) d = (if x = d then 0 else Suc (first_index xs d))"

definition docs_of :: "ranking \<Rightarrow> nat set" where
  "docs_of ranking = fst ` set ranking"

definition reciprocal :: "nat \<Rightarrow> ranking \<Rightarrow> nat \<Rightarrow> real" where
  "reciprocal k ranking d =
     (if d \<in> docs_of ranking then 1 / real (k + first_index (map fst ranking) d + 1) else 0)"

definition fused_score :: "ranking list \<Rightarrow> nat \<Rightarrow> nat \<Rightarrow> real option" where
  "fused_score rankings k d = map_of (reciprocal_rank_fusion rankings k) d"


text \<open>
  What one ranked list adds to a document's score, counted from position \<open>rank\<close>, and the
  score a dict of running sums holds for a document (zero before its first sighting).
\<close>

fun contribution :: "nat \<Rightarrow> nat \<Rightarrow> ranking \<Rightarrow> nat \<Rightarrow> real" where
  "contribution k rank [] d = 0"
| "contribution k rank ((x, _) # rest) d =
     (if x = d then 1 / real (k + rank + 1) else 0) + contribution k (Suc rank) rest d"

definition score_in :: "ranking \<Rightarrow> nat \<Rightarrow> real" where
  "score_in acc d = (case map_of acc d of None \<Rightarrow> 0 | Some s \<Rightarrow> s)"

subsection \<open>Semantic re-ranker\<close>

text \<open>
  One line of the prompt: \<^verbatim>\<open>c.get('judul', '')[:100]\<close> and
  \<^verbatim>\<open>c.get('cakupan', '')[:150]\<close> raise \<^verbatim>\<open>TypeError\<close> on a value that is not a string; the
  code is formatted whatever it is. The prompt is built before the \<^verbatim>\<open>try\<close> block, so
  this error is not caught.
\<close>

definition render_candidate :: "nat \<Rightarrow> pydict \<Rightarrow> py_error + (nat \<times> pyval \<times> string \<times> string)" where
  "render_candidate i c =
     (case dict_get c ''judul'' (PStr '''') of
        PStr judul \<Rightarrow>
          (case dict_get c ''cakupan'' (PStr '''') of
             PStr cakupan \<Rightarrow>
               Inr (i + 1, dict_get c ''kode_kbli'' (dict_get c ''kode'' (PStr ''N/A'')),
                    take 100 judul, take 150 cakupan)
           | _ \<Rightarrow> Inl TypeError)
      | _ \<Rightarrow> Inl TypeError)"

fun render_candidates :: "nat \<Rightarrow> pydict list \<Rightarrow> py_error + (nat \<times> pyval \<times> string \<times> string) list" where
  "render_candidates i [] = Inr []"
| "render_candidates i (c # cs) =
     (case render_candidate i c of
        Inl err \<Rightarrow> Inl err
      | Inr line \<Rightarrow>
          (case render_candidates (Suc i) cs of
             Inl err \<Rightarrow> Inl err
           | Inr rendered \<Rightarrow> Inr (line # rendered)))"

text \<open>
  \<^verbatim>\<open>idx = r.get("index", 1) - 1\<close>: an integer (a bool counts as one), a float, or a
  \<^verbatim>\<open>TypeError\<close> for a value that is no number.
\<close>

datatype item_index = IntIndex int | FloatIndex real | NoIndex

definition index_of_item :: "pydict \<Rightarrow> item_index" where
  "index_of_item r =
     (case dict_get r ''index'' (PInt 1) of
        PInt i \<Rightarrow> IntIndex (i - 1)
      | PBool flag \<Rightarrow> IntIndex ((if flag then 1 else 0) - 1)
      | PFloat x \<Rightarrow> FloatIndex (x - 1)
      | _ \<Rightarrow> NoIndex)"

text \<open>
  \<^verbatim>\<open>candidate = candidates[idx].copy()\<close> with the two fields of the judge attached.
\<close>

definition scored :: "pydict \<Rightarrow> pydict \<Rightarrow> pydict" where
  "scored candidate r =
     AList.update ''reasoning'' (dict_get r ''reason'' (PStr ''''))
       (AList.update ''relevance_score'' (dict_get r ''relevance'' (PFloat 0)) candidate)"

text \<open>
  The mapping loop over \<^verbatim>\<open>rankings[:top_k]\<close>; \<open>None\<close> when an entry raises: an entry
  that is not a dict, an index that is no number, or a float index in range (a list cannot
  be indexed by a float). An index out of range is skipped.
\<close>

fun map_rankings :: "pydict list \<Rightarrow> rank_item list \<Rightarrow> pydict list option" where
  "map_rankings candidates [] = Some []"
| "map_rankings candidates (NotADict # rest) = None"
| "map_rankings candidates (RankDict r # rest) =
     (case index_of_item r of
        NoIndex \<Rightarrow> None
      | FloatIndex x \<Rightarrow>
          if 0 \<le> x \<and> x < real (length candidates) then None
          else map_rankings candidates rest
      | IntIndex idx \<Rightarrow>
          if 0 \<le> idx \<and> idx < int (length candidates)
          then (case map_rankings candidates rest of
                  None \<Rightarrow> None
                | Some reranked \<Rightarrow> Some (scored (candidates ! nat idx) r # reranked))
          else map_rankings candidates rest)"

text \<open>
  What the \<^verbatim>\<open>try\<close> block yields for a reply: the re-ranked list, or \<open>None\<close> when the
  call, the parse or the mapping raised.
\<close>

definition judged :: "pydict list \<Rightarrow> nat \<Rightarrow> judge_reply \<Rightarrow> pydict list option" where
  "judged candidates top_k reply =
     (case reply of
        JudgeError \<Rightarrow> None
      | JudgeRankings rankings \<Rightarrow> map_rankings candidates (take top_k rankings))"

definition rerank :: "env \<Rightarrow> string \<Rightarrow> pydict list \<Rightarrow> nat \<Rightarrow> py_error + pydict list" where
  "rerank e query candidates_arg top_k =
     (if candidates_arg = [] then Inr []
      else
        let candidates = take 15 candidates_arg in
        case render_candidates 0 candidates of
          Inl err \<Rightarrow> Inl err
        | Inr rendered \<Rightarrow>
            (case judged candidates top_k (judge e query rendered) of
               Some reranked \<Rightarrow> Inr reranked
             | None \<Rightarrow> Inr (take top_k candidates)))"

subsection \<open>Hybrid search engine\<close>

record engine_state =
  bm25 :: bm25_index
  vector_store :: vector_store_state
  documents :: "pydict list"
  is_ready :: bool

text \<open>\<^verbatim>\<open>HybridSearchEngine(client)\<close>.\<close>

definition HybridSearchEngine :: engine_state where
  "HybridSearchEngine =
     \<lparr>bm25 = BM25 (3 / 2) (3 / 4), vector_store = LocalVectorStore, documents = [],
      is_ready = False\<rparr>"

text \<open>
  The two dicts \<^verbatim>\<open>search\<close> returns: \<^verbatim>\<open>{"error": ..., "results": []}\<close> and
  \<^verbatim>\<open>{"query", "total_candidates", "bm25_top", "vector_top", "results"}\<close>.
\<close>

datatype search_response =
    ErrorResponse string "pydict list"
  | SearchResponse string nat nat nat "pydict list"

fun results :: "search_response \<Rightarrow> pydict list" where
  "results (ErrorResponse msg rs) = rs"
| "results (SearchResponse query total_candidates bm25_top vector_top rs) = rs"

text \<open>
  Membership in the set \<^verbatim>\<open>seen_codes\<close> is by Python equality, under which numbers are
  equal across their types (\<^verbatim>\<open>True == 1 == 1.0\<close>): a code enters the set as its key.
\<close>

datatype hash_key = KNone | KNum real | KStr string

fun code_key :: "pyval \<Rightarrow> hash_key" where
  "code_key PNone = KNone"
| "code_key (PBool flag) = KNum (if flag then 1 else 0)"
| "code_key (PInt i) = KNum (real_of_int i)"
| "code_key (PFloat x) = KNum x"
| "code_key (PStr s) = KStr s"

text \<open>\<^verbatim>\<open>{**doc, "rrf_score": rrf_score, "_doc_idx": doc_idx}\<close>.\<close>

definition candidate_of :: "pydict \<Rightarrow> real \<Rightarrow> nat \<Rightarrow> pydict" where
  "candidate_of doc rrf_score doc_idx =
     AList.update ''_doc_idx'' (PInt (int doc_idx))
       (AList.update ''rrf_score'' (PFloat rrf_score) doc)"

text \<open>
  The walk over \<^verbatim>\<open>fused_ranking[:retrieval_top_k]\<close>, with the set of codes seen so far;
  \<^verbatim>\<open>self.documents[doc_idx]\<close> raises \<^verbatim>\<open>IndexError\<close> out of range.
\<close>

fun build_candidates :: "pydict list \<Rightarrow> ranking \<Rightarrow> hash_key set \<Rightarrow> py_error + pydict list" where
  "build_candidates docs [] seen_codes = Inr []"
| "build_candidates docs ((doc_idx, rrf_score) # rest) seen_codes =
     (if length docs \<le> doc_idx then Inl IndexError
      else
        let doc = docs ! doc_idx;
            code = code_key (dict_get doc ''kode_kbli'' (PStr ''''))
        in if code \<in> seen_codes then build_candidates docs rest seen_codes
           else case build_candidates docs rest (insert code seen_codes) of
                  Inl err \<Rightarrow> Inl err
                | Inr candidates \<Rightarrow> Inr (candidate_of doc rrf_score doc_idx # candidates))"

text \<open>\<^verbatim>\<open>r.pop("_doc_idx", None)\<close> on every final result.\<close>

definition clean_up :: "pydict list \<Rightarrow> pydict list" where
  "clean_up final_results = map (AList.delete ''_doc_idx'') final_results"

definition search :: "env \<Rightarrow> engine_state \<Rightarrow> string \<Rightarrow> nat \<Rightarrow> bool \<Rightarrow> nat \<Rightarrow> py_error + search_response" where
  "search e self query top_k use_reranking retrieval_top_k =
     (if \<not> is_ready self then Inr (ErrorResponse ''Search engine not initialized'' [])
      else
        case bm25_search (bm25 self) query retrieval_top_k of
          Inl err \<Rightarrow> Inl err
        | Inr bm25_results \<Rightarrow>
        case vector_search e (vector_store self) query retrieval_top_k of
          Inl err \<Rightarrow> Inl err
        | Inr vector_results \<Rightarrow>
        let fused_ranking = reciprocal_rank_fusion [bm25_results, vector_results] 60 in
        case build_candidates (documents self) (take retrieval_top_k fused_ranking) {} of
          Inl err \<Rightarrow> Inl err
        | Inr candidates \<Rightarrow>
        case (if use_reranking \<and> candidates \<noteq> [] then rerank e query candidates top_k
              else Inr (take top_k candidates)) of
          Inl err \<Rightarrow> Inl err
        | Inr final_results \<Rightarrow>
            Inr (SearchResponse query (length fused_ranking) (length bm25_results)
                   (length vector_results) (clean_up final_results)))"

text \<open>
  Vocabulary of the engine claims: the code of a document or candidate as the walk reads
  it; the entries of a list that no earlier entry shares its key with (\<open>before\<close> holds
  the entries already passed); the fields the prompt needs as strings; and the fusion
  score on a dict.
\<close>

definition code_of :: "pydict \<Rightarrow> hash_key" where
  "code_of doc = code_key (dict_get doc ''kode_kbli'' (PStr ''''))"

fun first_occurrences :: "('a \<Rightarrow> 'k) \<Rightarrow> 'a list \<Rightarrow> 'a list \<Rightarrow> 'a list" where
  "first_occurrences key before [] = []"
| "first_occurrences key before (x # xs) =
     (if key x \<in> key ` set before then [] else [x])
     @ first_occurrences key (before @ [x]) xs"

definition textual :: "pydict \<Rightarrow> bool" where
  "textual doc =
     ((case dict_get doc ''judul'' (PStr '''') of PStr s \<Rightarrow> True | _ \<Rightarrow> False)
      \<and> (case dict_get doc ''cakupan'' (PStr '''') of PStr s \<Rightarrow> True | _ \<Rightarrow> False))"

definition has_rrf_score :: "pydict \<Rightarrow> bool" where
  "has_rrf_score r = (case map_of r ''rrf_score'' of Some (PFloat s) \<Rightarrow> True | _ \<Rightarrow> False)"

text \<open>The code and the candidate of an entry of the fused ranking.\<close>

definition entry_code :: "pydict list \<Rightarrow> nat \<times> real \<Rightarrow> hash_key" where
  "entry_code docs x = code_of (docs ! fst x)"

definition entry_candidate :: "pydict list \<Rightarrow> nat \<times> real \<Rightarrow> pydict" where
  "entry_candidate docs x = candidate_of (docs ! fst x) (snd x) (fst x)"

subsection \<open>Concrete inputs\<close>

text \<open>
  A concrete environment (a stable ascending argsort, a provider that embeds every text
  as the zero vector of dimension one, a judge that always fails) and small corpora, for
  evaluating the model.
\<close>

definition stable_argsort :: "real list \<Rightarrow> nat list" where
  "stable_argsort xs = sort_key (\<lambda>i. xs ! i) [0..<length xs]"

definition env0 :: env where
  "env0 = \<lparr>py_str = (\<lambda>v. []), np_argsort = stable_argsort,
            get_embedding = (\<lambda>text. Some [0]), judge = (\<lambda>query rendered. JudgeError)\<rparr>"

definition corpus_roti :: "pydict list" where
  "corpus_roti =
     [[(''kode_kbli'', PStr ''47211''), (''judul'', PStr ''jual roti'')],
      [(''kode_kbli'', PStr ''10710''), (''judul'', PStr ''roti'')]]"

definition corpus_blank :: "pydict list" where
  "corpus_blank = [[(''kode_kbli'', PStr ''00001''), (''judul'', PStr ''a'')], []]"

definition bm25_roti :: bm25_index where
  "bm25_roti = fit env0 (BM25 (3 / 2) (3 / 4)) corpus_roti None"

definition bm25_blank :: bm25_index where
  "bm25_blank = fit env0 (BM25 (3 / 2) (3 / 4)) corpus_blank None"

text \<open>
  A second environment whose provider embeds every text as the unit vector of dimension
  one, a store with two equal rows, and the engine over the two-document corpus.
\<close>

definition env1 :: env where
  "env1 = env0\<lparr>get_embedding := (\<lambda>text. Some [1])\<rparr>"

definition store_twins :: vector_store_state where
  "store_twins =
     \<lparr>embeddings = Some [[1], [1]], vs_documents = corpus_roti, vs_is_ready = True\<rparr>"

definition engine_roti :: engine_state where
  "engine_roti =
     \<lparr>bm25 = bm25_roti, vector_store = store_twins, documents = corpus_roti, is_ready = True\<rparr>"

text \<open>
  A corpus in which two entries carry the same code, a fused ranking over it and the
  candidates the walk selects from it.
\<close>

definition corpus_twice :: "pydict list" where
  "corpus_twice =
     [[(''kode_kbli'', PStr ''47211''), (''judul'', PStr ''jual roti'')],
      [(''kode_kbli'', PStr ''10710''), (''judul'', PStr ''roti'')],
      [(''kode_kbli'', PStr ''47211''), (''judul'', PStr ''toko roti'')]]"

definition fused_twice :: ranking where
  "fused_twice = [(2, 1 / 61), (0, 1 / 62), (1, 1 / 63)]"

definition candidates_twice :: "pydict list" where
  "candidates_twice =
     [[(''kode_kbli'', PStr ''47211''), (''judul'', PStr ''toko roti''),
       (''rrf_score'', PFloat (1 / 61)), (''_doc_idx'', PInt 2)],
      [(''kode_kbli'', PStr ''10710''), (''judul'', PStr ''roti''),
       (''rrf_score'', PFloat (1 / 63)), (''_doc_idx'', PInt 1)]]"

text \<open>
  Sixteen documents with sixteen codes and one embedding, sixteen candidates over them,
  and the number of results of a search that returned.
\<close>

definition codes16 :: "string list" where
  "codes16 =
     [''10001'', ''10002'', ''10003'', ''10004'', ''10005'', ''10006'', ''10007'', ''10008'',
      ''10009'', ''10010'', ''10011'', ''10012'', ''10013'', ''10014'', ''10015'', ''10016'']"

definition corpus16 :: "pydict list" where
  "corpus16 = map (\<lambda>code. [(''kode_kbli'', PStr code)]) codes16"

definition sixteen_candidates :: "pydict list" where
  "sixteen_candidates =
     map (\<lambda>i. candidate_of (corpus16 ! i) (1 / real (61 + i)) i) [0..<16]"

definition engine16 :: engine_state where
  "engine16 =
     \<lparr>bm25 = fit env1 (BM25 (3 / 2) (3 / 4)) corpus16 None,
      vector_store =
        \<lparr>embeddings = Some (replicate 16 [1]), vs_documents = corpus16, vs_is_ready = True\<rparr>,
      documents = corpus16, is_ready = True\<rparr>"

definition result_count :: "py_error + search_response \<Rightarrow> nat option" where
  "result_count outcome =
     (case outcome of Inl err \<Rightarrow> None | Inr response \<Rightarrow> Some (length (results response)))"


section \<open>Verification\<close>

subsection \<open>Sorting in descending order\<close>

lemma sorted_desc_sort_key:
  "sorted_desc (map snd (sort_key (\<lambda>x. - snd x) (xs :: ranking)))"
proof -
  have "sorted (map (\<lambda>x. - snd x) (sort_key (\<lambda>x. - snd x) xs))"
    by (rule sorted_sort_key)
  then show ?thesis
    by (simp add: sorted_desc_def sorted_wrt_map)
qed

lemma sorted_desc_take: "sorted_desc (map snd xs) \<Longrightarrow> sorted_desc (map snd (take n xs))"
  by (simp add: sorted_desc_def sorted_wrt_map)

subsection \<open>Reciprocal rank fusion: the running sums\<close>

lemma map_of_rrf_add:
  "map_of (rrf_add k rank x acc) d =
     (if d = x then Some (score_in acc d + 1 / real (k + rank + 1)) else map_of acc d)"
  by (auto simp: rrf_add_def score_in_def Let_def update_conv' split: option.splits)

lemma keys_rrf_add: "fst ` set (rrf_add k rank x acc) = insert x (fst ` set acc)"
  by (auto simp: rrf_add_def Let_def dom_update split: option.splits simp: map_of_eq_None_iff)

lemma distinct_rrf_add: "distinct (map fst acc) \<Longrightarrow> distinct (map fst (rrf_add k rank x acc))"
  by (auto simp: rrf_add_def Let_def distinct_update split: option.splits)

lemma score_in_rrf_add:
  "score_in (rrf_add k rank x acc) d =
     score_in acc d + (if x = d then 1 / real (k + rank + 1) else 0)"
  by (simp add: score_in_def map_of_rrf_add)

lemma keys_rrf_ranking:
  "fst ` set (rrf_ranking k rank r acc) = fst ` set r \<union> fst ` set acc"
  by (induction k rank r acc rule: rrf_ranking.induct) (auto simp: keys_rrf_add)

lemma distinct_rrf_ranking:
  "distinct (map fst acc) \<Longrightarrow> distinct (map fst (rrf_ranking k rank r acc))"
  by (induction k rank r acc rule: rrf_ranking.induct) (auto simp: distinct_rrf_add)

lemma score_in_rrf_ranking:
  "score_in (rrf_ranking k rank r acc) d = score_in acc d + contribution k rank r d"
  by (induction k rank r acc rule: rrf_ranking.induct) (auto simp: score_in_rrf_add)

lemma keys_fold:
  "fst ` set (fold (rrf_ranking k 0) rs acc) = (\<Union>r\<in>set rs. fst ` set r) \<union> fst ` set acc"
  by (induction rs arbitrary: acc) (auto simp: keys_rrf_ranking)

lemma distinct_fold:
  "distinct (map fst acc) \<Longrightarrow> distinct (map fst (fold (rrf_ranking k 0) rs acc))"
  by (induction rs arbitrary: acc) (auto simp: distinct_rrf_ranking)

lemma score_in_fold:
  "score_in (fold (rrf_ranking k 0) rs acc) d =
     score_in acc d + (\<Sum>r\<leftarrow>rs. contribution k 0 r d)"
  by (induction rs arbitrary: acc) (auto simp: score_in_rrf_ranking)

lemma contribution_absent: "d \<notin> fst ` set r \<Longrightarrow> contribution k rank r d = 0"
  by (induction k rank r d rule: contribution.induct) auto

lemma contribution_distinct:
  "distinct (map fst r) \<Longrightarrow> d \<in> fst ` set r \<Longrightarrow>
   contribution k rank r d = 1 / real (k + rank + first_index (map fst r) d + 1)"
proof (induction k rank r d rule: contribution.induct)
  case (1 k rank d)
  then show ?case by simp
next
  case (2 k rank x uu rest d)
  then show ?case
    by (auto simp: contribution_absent)
qed

lemma contribution_reciprocal:
  "distinct (map fst r) \<Longrightarrow> contribution k 0 r d = reciprocal k r d"
  using contribution_distinct[of r d k 0] contribution_absent[of d r k 0]
  by (auto simp: reciprocal_def docs_of_def)
lemma keys_fusion:
  "fst ` set (reciprocal_rank_fusion rankings k) = (\<Union>r\<in>set rankings. docs_of r)"
  by (simp add: reciprocal_rank_fusion_def rrf_scores_of_def keys_fold docs_of_def)

lemma distinct_fusion: "distinct (map fst (reciprocal_rank_fusion rankings k))"
proof -
  have "distinct (map fst (rrf_scores_of rankings k))"
    by (simp add: rrf_scores_of_def distinct_fold)
  moreover have "mset (map fst (reciprocal_rank_fusion rankings k)) = mset (map fst (rrf_scores_of rankings k))"
    by (simp add: reciprocal_rank_fusion_def)
  ultimately show ?thesis
    by (metis distinct_count_atmost_1 set_mset_mset mset_eq_setD)
qed

lemma map_of_fusion:
  "map_of (reciprocal_rank_fusion rankings k) = map_of (rrf_scores_of rankings k)"
proof -
  have "distinct (map fst (rrf_scores_of rankings k))"
    by (simp add: rrf_scores_of_def distinct_fold)
  moreover have "set (reciprocal_rank_fusion rankings k) = set (rrf_scores_of rankings k)"
    by (simp add: reciprocal_rank_fusion_def)
  ultimately show ?thesis
    using distinct_fusion[of rankings k] by (simp add: map_of_inject_set)
qed

lemma fused_score_sum:
  "fused_score rankings k d =
     (if \<exists>r\<in>set rankings. d \<in> docs_of r then Some (\<Sum>r\<leftarrow>rankings. contribution k 0 r d)
      else None)"
proof (cases "\<exists>r\<in>set rankings. d \<in> docs_of r")
  case True
  then have "d \<in> fst ` set (rrf_scores_of rankings k)"
    by (auto simp: rrf_scores_of_def keys_fold docs_of_def)
  then obtain s where s: "map_of (rrf_scores_of rankings k) d = Some s"
    by (metis domD dom_map_of_conv_image_fst)
  have "score_in (rrf_scores_of rankings k) d = (\<Sum>r\<leftarrow>rankings. contribution k 0 r d)"
    unfolding rrf_scores_of_def score_in_fold by (simp add: score_in_def)
  with s have "s = (\<Sum>r\<leftarrow>rankings. contribution k 0 r d)"
    by (simp add: score_in_def)
  with s True show ?thesis
    by (simp add: fused_score_def map_of_fusion)
next
  case False
  then have "d \<notin> fst ` set (rrf_scores_of rankings k)"
    by (auto simp: rrf_scores_of_def keys_fold docs_of_def)
  then have "map_of (rrf_scores_of rankings k) d = None"
    by (simp add: map_of_eq_None_iff)
  with False show ?thesis
    by (simp add: fused_score_def map_of_fusion)
qed

lemma sum_reciprocal:
  "\<forall>r\<in>set rankings. distinct (map fst r) \<Longrightarrow>
   (\<Sum>r\<leftarrow>rankings. contribution k 0 r d) = (\<Sum>r\<leftarrow>rankings. reciprocal k r d)"
  by (induction rankings) (auto simp: contribution_reciprocal)


text \<open>
  C6. For ranked lists that name each document at most once, fusion gives every document
  the sum, over the lists that contain it, of \<open>1 / (k + rank + 1)\<close> with \<open>rank\<close> its
  0-based position in that list (the engine passes \<open>k = 60\<close>). A document first in both
  of two lists scores exactly \<open>2 / (k + 1)\<close>; a document first in one list and absent
  from the other scores \<open>1 / (k + 1)\<close>, strictly less than a first-ranked document to
  which the second list contributes as well.
\<close>

theorem rrf_formula:
  "(\<forall>r\<in>set rankings. distinct (map fst r)) \<longrightarrow>
     fused_score rankings k d =
       (if \<exists>r\<in>set rankings. d \<in> docs_of r then Some (\<Sum>r\<leftarrow>rankings. reciprocal k r d)
        else None)
     \<and> (rankings = [(a, x) # r1, (a, y) # r2] \<longrightarrow>
          fused_score rankings k a = Some (2 / real (k + 1)))
     \<and> (rankings = [(a, x) # r1, (b, y) # r2] \<and> b \<notin> docs_of ((a, x) # r1)
          \<and> a \<in> docs_of ((b, y) # r2) \<longrightarrow>
          fused_score rankings k b = Some (1 / real (k + 1))
          \<and> (\<exists>s. fused_score rankings k a = Some s \<and> 1 / real (k + 1) < s))"
proof (intro impI conjI)
  assume dist: "\<forall>r\<in>set rankings. distinct (map fst r)"
  then show formula: "fused_score rankings k d =
       (if \<exists>r\<in>set rankings. d \<in> docs_of r then Some (\<Sum>r\<leftarrow>rankings. reciprocal k r d)
        else None)"
    by (simp add: fused_score_sum sum_reciprocal)
  {
    assume "rankings = [(a, x) # r1, (a, y) # r2]"
    then show "fused_score rankings k a = Some (2 / real (k + 1))"
      using dist by (simp add: fused_score_sum docs_of_def contribution_absent)
  }
  {
    assume h: "rankings = [(a, x) # r1, (b, y) # r2] \<and> b \<notin> docs_of ((a, x) # r1)
          \<and> a \<in> docs_of ((b, y) # r2)"
    then have ab: "a \<noteq> b" by (auto simp: docs_of_def)
    from h have b1: "b \<notin> fst ` set r1" by (auto simp: docs_of_def)
    from h dist have b2: "b \<notin> fst ` set r2" by auto
    from h ab have a2: "a \<in> fst ` set r2" by (auto simp: docs_of_def)
    from h dist have a1: "a \<notin> fst ` set r1" by auto
    from h dist have d2: "distinct (map fst r2)" by auto
    show "fused_score rankings k b = Some (1 / real (k + 1))"
      using h ab b1 b2 by (simp add: fused_score_sum docs_of_def contribution_absent)
    have pos: "0 < contribution k (Suc 0) r2 a"
      using contribution_distinct[OF d2 a2, of k "Suc 0"] by simp
    show "\<exists>s. fused_score rankings k a = Some s \<and> 1 / real (k + 1) < s"
      using h ab a1 pos by (simp add: fused_score_sum docs_of_def contribution_absent)
  }
qed

theorem rrf_formula_witness:
  "fused_score [[(7, 3), (2, 1)], [(7, 0.9), (5, 0.4)]] 60 7 = Some (2 / 61)
   \<and> fused_score [[(7, 3), (2, 1)], [(5, 0.9), (7, 0.4)]] 60 5 = Some (1 / 61)
   \<and> fused_score [[(7, 3), (2, 1)], [(5, 0.9), (7, 0.4)]] 60 7 = Some (1 / 61 + 1 / 62)
   \<and> fused_score [[(7, 3), (2, 1)], [(5, 0.9), (7, 0.4)]] 60 9 = None"
  using rrf_formula[of "[[(7, 3), (2, 1)], [(7, 0.9), (5, 0.4)]]" 60 7 7 3 "[(2, 1)]" "0.9" "[(5, 0.4)]" 5]
    rrf_formula[of "[[(7, 3), (2, 1)], [(5, 0.9), (7, 0.4)]]" 60 7 7 3 "[(2, 1)]" "0.9" "[(7, 0.4)]" 5]
    rrf_formula[of "[[(7, 3), (2, 1)], [(5, 0.9), (7, 0.4)]]" 60 9 7 3 "[(2, 1)]" "0.9" "[(7, 0.4)]" 5]
  by (simp add: docs_of_def reciprocal_def)


text \<open>
  C7. For every sequence of ranked lists, the documents of the fused ranking are exactly
  the documents of the input lists (none that is absent from all of them), each appears
  once, and the ranking is in descending order of the fused score.
\<close>

theorem rrf_output:
  "fst ` set (reciprocal_rank_fusion rankings k) = (\<Union>r\<in>set rankings. docs_of r)
   \<and> distinct (map fst (reciprocal_rank_fusion rankings k))
   \<and> sorted_desc (map snd (reciprocal_rank_fusion rankings k))"
  using keys_fusion[of rankings k] distinct_fusion[of rankings k]
    sorted_desc_sort_key[of "rrf_scores_of rankings k"]
  by (simp add: reciprocal_rank_fusion_def)


theorem rrf_output_witness:
  "fst ` set (reciprocal_rank_fusion [[(7, 3), (2, 1)], [(5, 0.9), (7, 0.4)]] 60) = {2, 5, 7}
   \<and> distinct (map fst (reciprocal_rank_fusion [[(7, 3), (2, 1)], [(5, 0.9), (7, 0.4)]] 60))
   \<and> sorted_desc (map snd (reciprocal_rank_fusion [[(7, 3), (2, 1)], [(5, 0.9), (7, 0.4)]] 60))"
  using rrf_output[of "[[(7, 3), (2, 1)], [(5, 0.9), (7, 0.4)]]" 60]
  by (auto simp: docs_of_def)

subsection \<open>BM25: document frequencies, the fitted index and the scoring loop\<close>

lemma fold_bump:
  "distinct xs \<Longrightarrow>
   fold bump xs df t = (if t \<in> set xs then Some (df_val df t + 1) else df t)"
  by (induction xs arbitrary: df) (auto simp: bump_def df_val_def)

lemma fold_docs:
  "fold (\<lambda>tokens df. fold bump (remdups tokens) df) docs df t =
     (if df_count docs t = 0 then df t else Some (df_val df t + df_count docs t))"
proof (induction docs arbitrary: df)
  case Nil
  then show ?case by (simp add: df_count_def)
next
  case (Cons d docs)
  let ?step = "\<lambda>tokens df. fold bump (remdups tokens) df"
  let ?df' = "fold bump (remdups d) df"
  have a: "?df' t = (if t \<in> set d then Some (df_val df t + 1) else df t)"
    using fold_bump[of "remdups d" df t] by simp
  have b: "df_val ?df' t = (if t \<in> set d then df_val df t + 1 else df_val df t)"
    using a by (simp add: df_val_def)
  have "fold ?step (d # docs) df t = fold ?step docs ?df' t"
    by simp
  also have "\<dots> = (if df_count docs t = 0 then ?df' t else Some (df_val ?df' t + df_count docs t))"
    by (rule Cons)
  also have "\<dots> = (if df_count (d # docs) t = 0 then df t
                    else Some (df_val df t + df_count (d # docs) t))"
    using a b by (auto simp: df_count_def)
  finally show ?case .
qed

lemma count_doc_freqs_eq:
  "count_doc_freqs docs t = (if df_count docs t = 0 then None else Some (df_count docs t))"
  by (simp add: count_doc_freqs_def fold_docs df_val_def)

lemma df_count_le: "df_count docs t \<le> length docs"
  by (simp add: df_count_def)

lemma doc_freqs_bounds:
  "count_doc_freqs docs t = Some n \<Longrightarrow> 0 < n \<and> n \<le> length docs"
  using df_count_le[of docs t] by (auto simp: count_doc_freqs_eq split: if_splits)

lemma idf_argument_gt_1: "df \<le> n \<Longrightarrow> 1 < idf_argument n df"
  by (simp add: idf_argument_def)

lemma fit_simps:
  "corpus_size (fit e self docs fs) = length docs"
  "length (bm25_documents (fit e self docs fs)) = length docs"
  "doc_len (fit e self docs fs) = map length (bm25_documents (fit e self docs fs))"
  "doc_freqs (fit e self docs fs) = count_doc_freqs (bm25_documents (fit e self docs fs))"
  "idf (fit e self docs fs) = idf_of (length docs) (doc_freqs (fit e self docs fs))"
  "k1 (fit e self docs fs) = k1 self"
  "b_param (fit e self docs fs) = b_param self"
  "original_docs (fit e self docs fs) = docs"
  by (simp_all add: fit_def Let_def)

lemma fit_avgdl:
  "avgdl (fit e self docs fs) =
     (if docs = [] then 0
      else real (sum_list (doc_len (fit e self docs fs))) / real (length docs))"
  by (simp add: fit_def Let_def)

lemma fit_idf_positive:
  assumes "idf (fit e self docs fs) t = Some v"
  shows "\<exists>df. doc_freqs (fit e self docs fs) t = Some df \<and> 0 < df \<and> df \<le> length docs
            \<and> v = ln (idf_argument (length docs) df) \<and> 1 < idf_argument (length docs) df \<and> 0 < v"
proof -
  from assms obtain df where df: "doc_freqs (fit e self docs fs) t = Some df"
    and v: "v = ln (idf_argument (length docs) df)"
    by (auto simp: fit_simps(5) idf_of_def split: option.splits)
  from df have b: "0 < df \<and> df \<le> length docs"
    using doc_freqs_bounds[of "bm25_documents (fit e self docs fs)" t df]
    by (simp add: fit_simps)
  then have "1 < idf_argument (length docs) df"
    by (simp add: idf_argument_gt_1)
  with df v b show ?thesis by simp
qed

lemma fit_avgdl_positive:
  assumes "doc_tokens \<in> set (bm25_documents (fit e self docs fs))" and "doc_tokens \<noteq> []"
  shows "0 < avgdl (fit e self docs fs)"
proof -
  let ?st = "fit e self docs fs"
  from assms(2) have "0 < length doc_tokens" by simp
  moreover have "length doc_tokens \<in> set (doc_len ?st)"
    using assms(1) by (simp add: fit_simps(3))
  ultimately have "0 < sum_list (doc_len ?st)"
    using member_le_sum_list[of "length doc_tokens" "doc_len ?st"] by linarith
  moreover from assms(1) have "docs \<noteq> []"
    using fit_simps(2)[of e self docs fs] by auto
  ultimately show ?thesis
    by (simp add: fit_avgdl)
qed

lemma score_terms_returns:
  assumes "doc_tokens = [] \<or> 0 < avgdl self"
    and "0 \<le> k1 self" and "0 \<le> b_param self" and "b_param self \<le> 1"
  shows "\<exists>s. score_terms self doc_tokens dl q score = Inr s"
proof (induction q arbitrary: score)
  case Nil
  then show ?case by simp
next
  case (Cons t q)
  show ?case
  proof (cases "idf self t")
    case None
    then show ?thesis using Cons by simp
  next
    case (Some idf_t)
    show ?thesis
    proof (cases "count_list doc_tokens t = 0")
      case True
      then show ?thesis using Some Cons by simp
    next
      case False
      then have tf: "0 < count_list doc_tokens t" by simp
      then have av: "0 < avgdl self" using assms(1) by auto
      have "0 \<le> b_param self * (real dl / avgdl self)"
        using av assms(3) by simp
      then have "0 \<le> 1 - b_param self + b_param self * (real dl / avgdl self)"
        using assms(4) by simp
      then have "0 \<le> k1 self * (1 - b_param self + b_param self * (real dl / avgdl self))"
        using assms(2) by simp
      then have den: "real (count_list doc_tokens t)
          + k1 self * (1 - b_param self + b_param self * (real dl / avgdl self)) \<noteq> 0"
        using tf by (smt (verit) of_nat_0_less_iff)
      show ?thesis
        using Some False av den Cons by (simp add: Let_def)
    qed
  qed
qed

lemma collect_scores_returns:
  assumes "\<forall>doc_tokens\<in>set rest. doc_tokens = [] \<or> 0 < avgdl self"
    and "0 \<le> k1 self" and "0 \<le> b_param self" and "b_param self \<le> 1"
    and "idx + length rest \<le> length (doc_len self)"
  shows "\<exists>r. collect_scores self q idx rest = Inr r"
  using assms(1,5)
proof (induction rest arbitrary: idx)
  case Nil
  then show ?case by simp
next
  case (Cons d rest)
  have av: "d = [] \<or> 0 < avgdl self"
    using Cons.prems(1) by auto
  obtain s where s: "score_document self q d (doc_len self ! idx) = Inr s"
    using score_terms_returns[OF av assms(2,3,4)] unfolding score_document_def by blast
  have "\<exists>r. collect_scores self q (Suc idx) rest = Inr r"
    using Cons.IH[of "Suc idx"] Cons.prems by simp
  then obtain r where r: "collect_scores self q (Suc idx) rest = Inr r" by blast
  from Cons.prems(2) have "\<not> length (doc_len self) \<le> idx" by simp
  then show ?case using s r by simp
qed

lemma collect_scores_sound:
  "collect_scores self q idx rest = Inr scores \<Longrightarrow> (i, s) \<in> set scores \<Longrightarrow>
     idx \<le> i \<and> i < idx + length rest
     \<and> score_document self q (rest ! (i - idx)) (doc_len self ! i) = Inr s \<and> 0 < s"
proof (induction rest arbitrary: idx scores)
  case Nil
  then show ?case by simp
next
  case (Cons d rest)
  from Cons.prems(1) obtain sc scs where
    sc: "score_document self q d (doc_len self ! idx) = Inr sc"
    and scs: "collect_scores self q (Suc idx) rest = Inr scs"
    and eq: "scores = (if sc > 0 then (idx, sc) # scs else scs)"
    by (auto split: if_splits sum.splits)
  show ?case
  proof (cases "(i, s) \<in> set scs")
    case True
    from Cons.IH[OF scs True] show ?thesis
      by (auto simp: Suc_diff_le nth_Cons')
  next
    case False
    with Cons.prems(2) eq have "sc > 0 \<and> i = idx \<and> s = sc"
      by (auto split: if_splits)
    with sc show ?thesis by simp
  qed
qed

lemma fit_search_returns:
  assumes "0 \<le> k1 self" and "0 \<le> b_param self" and "b_param self \<le> 1"
  shows "\<exists>rs. bm25_search (fit e self docs fs) query top_k = Inr rs"
proof -
  let ?st = "fit e self docs fs"
  have "\<exists>r. collect_scores ?st (tokenize query) 0 (bm25_documents ?st) = Inr r"
    by (rule collect_scores_returns)
       (use assms fit_avgdl_positive[of _ e self docs fs] in \<open>auto simp: fit_simps\<close>)
  then show ?thesis
    by (auto simp: bm25_search_def Let_def)
qed

lemma bm25_search_sound:
  assumes "bm25_search self query top_k = Inr rs"
  shows "length rs \<le> top_k \<and> sorted_desc (map snd rs)
     \<and> (\<forall>(i, s)\<in>set rs. i < length (bm25_documents self)
          \<and> score_document self (tokenize query) (bm25_documents self ! i) (doc_len self ! i) = Inr s
          \<and> 0 < s)"
proof (cases "tokenize query = []")
  case True
  with assms show ?thesis by (simp add: bm25_search_def sorted_desc_def)
next
  case False
  with assms obtain scores where
    sc: "collect_scores self (tokenize query) 0 (bm25_documents self) = Inr scores"
    and rs: "rs = take top_k (sort_key (\<lambda>x. - snd x) scores)"
    by (auto simp: bm25_search_def Let_def split: sum.splits)
  have sub: "set rs \<subseteq> set scores"
    using rs by (metis set_take_subset set_sort)
  have "sorted_desc (map snd rs)"
    unfolding rs by (rule sorted_desc_take) (rule sorted_desc_sort_key)
  moreover have "length rs \<le> top_k" by (simp add: rs)
  moreover have "\<forall>(i, s)\<in>set rs. i < length (bm25_documents self)
          \<and> score_document self (tokenize query) (bm25_documents self ! i) (doc_len self ! i) = Inr s
          \<and> 0 < s"
    using collect_scores_sound[OF sc] sub by fastforce
  ultimately show ?thesis by simp
qed


text \<open>A BM25 result list names each document at most once.\<close>

lemma collect_scores_distinct:
  "collect_scores self q idx rest = Inr scores \<Longrightarrow> distinct (map fst scores)"
proof (induction rest arbitrary: idx scores)
  case Nil
  then show ?case by simp
next
  case (Cons d rest)
  from Cons.prems obtain scs where
    scs: "collect_scores self q (Suc idx) rest = Inr scs"
    and eq: "scores = scs \<or> (\<exists>sc. scores = (idx, sc) # scs)"
    by (auto split: if_splits sum.splits)
  have "idx \<notin> fst ` set scs"
    using collect_scores_sound[OF scs] by force
  with Cons.IH[OF scs] eq show ?case by auto
qed

lemma distinct_fst_sort_key:
  "distinct (map fst (sort_key f xs)) = distinct (map fst xs)"
proof -
  have "mset (map fst (sort_key f xs)) = mset (map fst xs)" by simp
  then show ?thesis by (rule mset_eq_imp_distinct_iff)
qed

lemma bm25_search_distinct:
  assumes "bm25_search self query top_k = Inr rs"
  shows "distinct (map fst rs)"
proof (cases "tokenize query = []")
  case True
  with assms show ?thesis by (simp add: bm25_search_def)
next
  case False
  with assms obtain scores where
    sc: "collect_scores self (tokenize query) 0 (bm25_documents self) = Inr scores"
    and rs: "rs = take top_k (sort_key (\<lambda>x. - snd x) scores)"
    by (auto simp: bm25_search_def Let_def split: sum.splits)
  have "distinct (map fst (sort_key (\<lambda>x. - snd x) scores))"
    using collect_scores_distinct[OF sc] by (simp only: distinct_fst_sort_key)
  then show ?thesis
    unfolding rs by (simp add: take_map[symmetric] del: take_map)
qed

subsection \<open>BM25 on the concrete corpora\<close>

lemma map_then: "map f xs = ys \<Longrightarrow> map (\<lambda>x. g (f x)) xs = map g ys"
  by auto

lemma combined_roti:
  "map (combined_text env0 default_text_fields) corpus_roti = [''jual roti  '', ''roti  '']"
  by (simp add: corpus_roti_def combined_text_def default_text_fields_def dict_get_def
      str_of_def)

lemma combined_blank:
  "map (combined_text env0 default_text_fields) corpus_blank = [''a  '', ''  '']"
  by (simp add: corpus_blank_def combined_text_def default_text_fields_def dict_get_def
      str_of_def)

lemma tokenize_roti:
  "tokenize ''jual roti  '' = [''jual'', ''roti'']" "tokenize ''roti  '' = [''roti'']"
  "tokenize ''roti'' = [''roti'']" "tokenize ''a  '' = []" "tokenize ''  '' = []"
  by code_simp+

lemma length_corpora: "length corpus_roti = 2" "length corpus_blank = 2"
  by (simp_all add: corpus_roti_def corpus_blank_def)

lemma tokens_roti: "bm25_documents bm25_roti = [[''jual'', ''roti''], [''roti'']]"
  using map_then[OF combined_roti, of tokenize]
  by (simp add: bm25_roti_def fit_def Let_def tokenize_roti)

lemma tokens_blank: "bm25_documents bm25_blank = [[], []]"
  using map_then[OF combined_blank, of tokenize]
  by (simp add: bm25_blank_def fit_def Let_def tokenize_roti)

lemma df_roti: "doc_freqs bm25_roti ''roti'' = Some 2"
  using tokens_roti by (simp add: bm25_roti_def fit_simps count_doc_freqs_def bump_def)

lemma idf_roti: "idf bm25_roti ''roti'' = Some (ln (6 / 5))"
  using df_roti
  by (simp add: bm25_roti_def fit_simps(5) idf_of_def idf_argument_def length_corpora)

lemma len_roti: "doc_len bm25_roti = [2, 1]"
  using tokens_roti by (simp add: bm25_roti_def fit_simps(3))

lemma avgdl_roti: "avgdl bm25_roti = 3 / 2"
  using len_roti length_corpora(1) by (auto simp: bm25_roti_def fit_avgdl)

lemma avgdl_blank: "avgdl bm25_blank = 0"
  using tokens_blank by (simp add: bm25_blank_def fit_avgdl fit_simps(3))

lemma params_roti: "k1 bm25_roti = 3 / 2" "b_param bm25_roti = 3 / 4"
  by (simp_all add: bm25_roti_def fit_simps BM25_def)

lemma score_roti_0:
  "score_document bm25_roti [''roti''] [''jual'', ''roti''] 2 = Inr (ln (6 / 5) * (20 / 23))"
  by (simp add: score_document_def idf_roti avgdl_roti params_roti Let_def)

lemma score_roti_1:
  "score_document bm25_roti [''roti''] [''roti''] (Suc 0) = Inr (ln (6 / 5) * (20 / 17))"
  by (simp add: score_document_def idf_roti avgdl_roti params_roti Let_def)

lemma search_roti:
  "bm25_search bm25_roti ''roti'' n
     = Inr (take n [(1, ln (6 / 5) * (20 / 17)), (0, ln (6 / 5) * (20 / 23))])"
proof -
  have pos: "0 < ln (6 / 5 :: real)" by simp
  then have le: "ln (6 / 5 :: real) * 20 / 23 \<le> ln (6 / 5) * 20 / 17" by simp
  show ?thesis
    using pos le
    by (simp add: bm25_search_def tokenize_roti tokens_roti len_roti score_roti_0
        score_roti_1 Let_def)
qed

lemma search_blank: "bm25_search bm25_blank ''roti'' n = Inr []"
proof -
  have "doc_freqs bm25_blank ''roti'' = None"
    using tokens_blank by (simp add: bm25_blank_def fit_simps count_doc_freqs_def)
  then have "idf bm25_blank ''roti'' = None"
    by (simp add: bm25_blank_def fit_simps(5) idf_of_def)
  moreover have "doc_len bm25_blank = [0, 0]"
    using tokens_blank by (simp add: bm25_blank_def fit_simps(3))
  ultimately show ?thesis
    by (simp add: bm25_search_def tokenize_roti tokens_blank score_document_def)
qed

subsection \<open>BM25: the claims\<close>

text \<open>
  C2, as amended. The claim that some term occurring in more than half of the documents
  gets a negative inverse document frequency is false: no corpus and no term do. For
  every corpus and every indexed term, the document frequency \<open>df\<close> lies between 1 and the
  corpus size \<open>N\<close>, the argument \<open>(N - df + 0.5) / (df + 0.5) + 1\<close> of the logarithm is
  greater than 1, and the inverse document frequency is strictly positive.
\<close>

theorem idf_never_negative:
  "idf (fit e self docs fs) t = Some v \<Longrightarrow>
     (\<exists>df. doc_freqs (fit e self docs fs) t = Some df \<and> 0 < df
        \<and> df \<le> corpus_size (fit e self docs fs)
        \<and> v = ln (idf_argument (corpus_size (fit e self docs fs)) df)
        \<and> 1 < idf_argument (corpus_size (fit e self docs fs)) df)
     \<and> 0 < v"
  using fit_idf_positive[of e self docs fs t v] by (auto simp: fit_simps)

theorem idf_never_negative_witness:
  "doc_freqs (fit env0 (BM25 (3 / 2) (3 / 4)) corpus_roti None) ''roti'' = Some 2
   \<and> corpus_size (fit env0 (BM25 (3 / 2) (3 / 4)) corpus_roti None) = 2
   \<and> idf (fit env0 (BM25 (3 / 2) (3 / 4)) corpus_roti None) ''roti'' = Some (ln (6 / 5))
   \<and> 0 < ln (6 / 5 :: real)"
proof -
  have h: "idf (fit env0 (BM25 (3 / 2) (3 / 4)) corpus_roti None) ''roti'' = Some (ln (6 / 5))"
    using idf_roti by (simp add: bm25_roti_def)
  show ?thesis
    using idf_never_negative[OF h] h df_roti
    by (simp add: bm25_roti_def fit_simps(1) length_corpora)
qed

theorem negative_idf_counterexample:
  "\<not> (\<exists>e self docs fs t df v.
        doc_freqs (fit e self docs fs) t = Some df
        \<and> real (corpus_size (fit e self docs fs)) / 2 < real df
        \<and> idf (fit e self docs fs) t = Some v \<and> v < 0)"
  using fit_idf_positive by fastforce

text \<open>
  C5. For every index fitted with parameters \<open>0 \<le> k1\<close> and \<open>0 \<le> b \<le> 1\<close> (the engine's
  are 1.5 and 0.75), every query and every \<open>top_k\<close>, the search returns a list of at most
  \<open>top_k\<close> entries, in non-increasing score order, each pairing a document index with that
  document's BM25 score against the query, which is strictly positive: a document that
  scores zero is not in the list.
\<close>

theorem bm25_search_results:
  assumes "0 \<le> k1 self" and "0 \<le> b_param self" and "b_param self \<le> 1"
  shows "\<exists>rs. bm25_search (fit e self docs fs) query top_k = Inr rs
     \<and> length rs \<le> top_k \<and> sorted_desc (map snd rs)
     \<and> (\<forall>(i, s)\<in>set rs. i < length docs
          \<and> score_document (fit e self docs fs) (tokenize query)
               (bm25_documents (fit e self docs fs) ! i) (doc_len (fit e self docs fs) ! i) = Inr s
          \<and> 0 < s)"
proof -
  obtain rs where rs: "bm25_search (fit e self docs fs) query top_k = Inr rs"
    using fit_search_returns[OF assms] by blast
  from bm25_search_sound[OF rs] rs show ?thesis
    by (simp add: fit_simps)
qed

theorem bm25_search_results_witness:
  "bm25_search (fit env0 (BM25 (3 / 2) (3 / 4)) corpus_roti None) ''roti'' 1
     = Inr [(1, ln (6 / 5) * (20 / 17))]
   \<and> score_document (fit env0 (BM25 (3 / 2) (3 / 4)) corpus_roti None) (tokenize ''roti'')
        (bm25_documents (fit env0 (BM25 (3 / 2) (3 / 4)) corpus_roti None) ! 1)
        (doc_len (fit env0 (BM25 (3 / 2) (3 / 4)) corpus_roti None) ! 1)
      = Inr (ln (6 / 5) * (20 / 17))
   \<and> 0 < ln (6 / 5) * (20 / 17 :: real)"
  using bm25_search_results[of "BM25 (3 / 2) (3 / 4)" env0 corpus_roti None "''roti''" 1]
    search_roti[of 1]
  by (simp add: bm25_roti_def BM25_def)

text \<open>
  C10. In an index built by \<open>fit\<close> from any corpus, a document in which some term has a
  positive term frequency makes the average document length positive, so the division by
  \<open>avgdl\<close> in the scorer, which is reached only for such a term, has a non-zero divisor;
  with the parameters in the range of C5 the other division is safe as well, and the search
  returns a result for every query and every \<open>top_k\<close>, also over a corpus whose documents
  all tokenize to nothing (\<open>avgdl = 0\<close>).
\<close>

theorem bm25_no_division_by_zero:
  "(\<forall>doc_tokens\<in>set (bm25_documents (fit e self docs fs)).
      \<forall>t. 0 < count_list doc_tokens t \<longrightarrow> 0 < avgdl (fit e self docs fs))
   \<and> (0 \<le> k1 self \<and> 0 \<le> b_param self \<and> b_param self \<le> 1 \<longrightarrow>
        (\<exists>rs. bm25_search (fit e self docs fs) query top_k = Inr rs))"
proof (intro conjI ballI allI impI)
  fix doc_tokens t
  assume mem: "doc_tokens \<in> set (bm25_documents (fit e self docs fs))"
    and tf: "0 < count_list doc_tokens t"
  from tf have "doc_tokens \<noteq> []" by auto
  with mem show "0 < avgdl (fit e self docs fs)"
    by (rule fit_avgdl_positive)
next
  assume "0 \<le> k1 self \<and> 0 \<le> b_param self \<and> b_param self \<le> 1"
  then show "\<exists>rs. bm25_search (fit e self docs fs) query top_k = Inr rs"
    using fit_search_returns[of self e docs fs query top_k] by simp
qed

theorem bm25_no_division_by_zero_witness:
  "avgdl (fit env0 (BM25 (3 / 2) (3 / 4)) corpus_blank None) = 0
   \<and> bm25_search (fit env0 (BM25 (3 / 2) (3 / 4)) corpus_blank None) ''roti'' 5 = Inr []
   \<and> 0 < count_list [''jual'', ''roti''] ''roti''
   \<and> 0 < avgdl (fit env0 (BM25 (3 / 2) (3 / 4)) corpus_roti None)
   \<and> (\<exists>rs. bm25_search (fit env0 (BM25 (3 / 2) (3 / 4)) corpus_roti None) ''roti'' 5 = Inr rs)"
  using bm25_no_division_by_zero[of env0 "BM25 (3 / 2) (3 / 4)" corpus_roti None "''roti''" 5]
    bm25_no_division_by_zero[of env0 "BM25 (3 / 2) (3 / 4)" corpus_blank None "''roti''" 5]
    avgdl_blank search_blank[of 5] tokens_roti
  by (simp add: bm25_roti_def bm25_blank_def BM25_def)

subsection \<open>Vector store\<close>

lemma argsort_contract_perm:
  assumes "argsort_contract f"
  shows "set (f xs) = {0..<length xs}" and "distinct (f xs)" and "length (f xs) = length xs"
    and "sorted (map (\<lambda>i. xs ! i) (f xs))"
proof -
  from assms have m: "mset (f xs) = mset [0..<length xs]"
    and s: "sorted (map (\<lambda>i. xs ! i) (f xs))"
    by (auto simp: argsort_contract_def)
  from m show "set (f xs) = {0..<length xs}"
    by (metis set_mset_mset set_upt)
  from m show "distinct (f xs)"
    by (metis distinct_upt mset_eq_imp_distinct_iff)
  from m show "length (f xs) = length xs"
    by (metis length_upt diff_zero size_mset)
  from s show "sorted (map (\<lambda>i. xs ! i) (f xs))" .
qed

lemma stable_argsort_contract: "argsort_contract stable_argsort"
  by (simp add: argsort_contract_def stable_argsort_def)

lemma top_of_props:
  assumes set: "set order = {0..<length sims}" and dist: "distinct order"
    and len: "length order = length sims" and srt: "sorted (map (\<lambda>i. sims ! i) order)"
  shows "length (top_of sims order k) = min k (length sims)"
    and "sorted_desc (map snd (top_of sims order k))"
    and "distinct (map fst (top_of sims order k))"
    and "\<forall>(i, s)\<in>set (top_of sims order k). i < length sims \<and> s = sims ! i"
    and "\<forall>j<length sims. j \<notin> fst ` set (top_of sims order k) \<longrightarrow>
           (\<forall>(i, s)\<in>set (top_of sims order k). sims ! j \<le> s)"
proof -
  let ?r = "rev order"
  have fst_top: "map fst (top_of sims order k) = take k ?r"
    by (simp add: top_of_def comp_def)
  have snd_top: "map snd (top_of sims order k) = map (\<lambda>i. sims ! i) (take k ?r)"
    by (simp add: top_of_def comp_def)
  show "length (top_of sims order k) = min k (length sims)"
    by (simp add: top_of_def len min.commute)
  have desc: "sorted_wrt (\<lambda>a b. sims ! b \<le> sims ! a) ?r"
    using srt by (simp add: sorted_wrt_rev sorted_wrt_map)
  then have "sorted_wrt (\<lambda>a b. sims ! b \<le> sims ! a) (take k ?r)"
    by (rule sorted_wrt_take)
  then show "sorted_desc (map snd (top_of sims order k))"
    by (simp add: snd_top sorted_desc_def sorted_wrt_map)
  show "distinct (map fst (top_of sims order k))"
    using dist by (simp add: fst_top)
  show "\<forall>(i, s)\<in>set (top_of sims order k). i < length sims \<and> s = sims ! i"
    using set by (auto simp: top_of_def dest!: in_set_takeD)
  show "\<forall>j<length sims. j \<notin> fst ` set (top_of sims order k) \<longrightarrow>
           (\<forall>(i, s)\<in>set (top_of sims order k). sims ! j \<le> s)"
  proof (intro allI impI)
    fix j assume j: "j < length sims" and notin: "j \<notin> fst ` set (top_of sims order k)"
    have "j \<in> set ?r" using j set by simp
    then have "j \<in> set (take k ?r) \<or> j \<in> set (drop k ?r)"
      by (metis Un_iff append_take_drop_id set_append)
    moreover have "j \<notin> set (take k ?r)"
      using notin fst_top by (metis list.set_map)
    ultimately have jd: "j \<in> set (drop k ?r)" by simp
    from desc have "sorted_wrt (\<lambda>a b. sims ! b \<le> sims ! a) (take k ?r @ drop k ?r)"
      by simp
    then have "\<forall>a\<in>set (take k ?r). \<forall>b\<in>set (drop k ?r). sims ! b \<le> sims ! a"
      by (simp only: sorted_wrt_append) blast
    with jd show "\<forall>(i, s)\<in>set (top_of sims order k). sims ! j \<le> s"
      by (auto simp: top_of_def)
  qed
qed

lemma vector_search_ready:
  assumes "vs_is_ready self" and "get_embedding e query = Some raw"
    and "embeddings self = Some rows"
    and "list_all (\<lambda>row. length row = length raw) rows"
    and "set (np_argsort e (similarities_of rows raw)) = {0..<length rows}"
  shows "vector_search e self query top_k
           = Inr (top_of (similarities_of rows raw) (np_argsort e (similarities_of rows raw)) top_k)"
proof -
  have "list_all (\<lambda>idx. idx < length rows)
          (take top_k (rev (np_argsort e (similarities_of rows raw))))"
    using assms(5) by (auto simp: list_all_iff dest!: in_set_takeD)
  then show ?thesis
    using assms(1-4)
    by (simp add: vector_search_def Let_def similarities_of_def top_of_def normalize_def)
qed

lemma sims_twins:
  "similarities_of [[1], [1]] [1] = [10000000000 / 10000000001, 10000000000 / 10000000001]"
  by (simp add: similarities_of_def normalize_def l2_norm_def dot_def)

lemma argsort_twins: "stable_argsort [c, c] = [0, 1]"
  by (simp add: stable_argsort_def upt_rec)

lemma search_twins:
  "vector_search env1 store_twins ''roti'' 2
     = Inr [(1, 10000000000 / 10000000001), (0, 10000000000 / 10000000001)]"
proof -
  have "vector_search env1 store_twins ''roti'' 2
     = Inr (top_of (similarities_of [[1], [1]] [1]) (np_argsort env1 (similarities_of [[1], [1]] [1])) 2)"
    by (rule vector_search_ready)
       (simp_all add: env1_def env0_def store_twins_def sims_twins argsort_twins atLeast0LessThan lessThan_Suc insert_commute numeral_2_eq_2)
  then show ?thesis
    by (simp add: env1_def env0_def sims_twins argsort_twins top_of_def)
qed


text \<open>So does a vector result list, under numpy's contract for the argsort.\<close>

lemma vector_search_distinct:
  assumes "argsort_contract (np_argsort e)" and "vector_search e self query top_k = Inr rs"
  shows "distinct (map fst rs)"
proof (cases "vs_is_ready self")
  case False
  with assms(2) show ?thesis by (simp add: vector_search_def)
next
  case True
  with assms(2) obtain raw rows where
    rs: "rs = top_of (similarities_of rows raw) (np_argsort e (similarities_of rows raw)) top_k"
    by (auto simp: vector_search_def Let_def top_of_def similarities_of_def
        split: option.splits if_splits)
  have "distinct (np_argsort e (similarities_of rows raw))"
    using assms(1) by (rule argsort_contract_perm(2))
  then show ?thesis
    by (simp add: rs top_of_def comp_def)
qed

lemma top_of_ties:
  assumes "keeps_ties_in_order sims order"
  shows "ties_descending (top_of sims order k)"
proof -
  have "sorted_wrt (\<lambda>i j. sims ! j = sims ! i \<longrightarrow> i < j) order"
    using assms unfolding keeps_ties_in_order_def
    by (rule sorted_wrt_mono_rel[rotated]) auto
  then have "sorted_wrt (\<lambda>i j. sims ! i = sims ! j \<longrightarrow> j < i) (rev order)"
    by (simp add: sorted_wrt_rev)
  then have "sorted_wrt (\<lambda>i j. sims ! i = sims ! j \<longrightarrow> j < i) (take k (rev order))"
    by (rule sorted_wrt_take)
  then show ?thesis
    by (simp add: ties_descending_def top_of_def sorted_wrt_map)
qed

text \<open>
  C9, as amended. For every ready store whose rows have the dimension of the query
  embedding, and every argsort that meets numpy's contract, the vector search returns
  \<open>min top_k n\<close> pairs of an index and that row's similarity, with distinct indices, in
  descending order of similarity, and no document left out is more similar than one
  returned. The code has no tie-break of its own: equal similarities come in the reverse
  of the order the argsort gives them, so in descending index order when the argsort
  keeps equal values in index order.
\<close>

theorem vector_search_top_k:
  assumes "argsort_contract (np_argsort e)" and "vs_is_ready self"
    and "get_embedding e query = Some raw" and "embeddings self = Some rows"
    and "list_all (\<lambda>row. length row = length raw) rows"
  shows "\<exists>rs. vector_search e self query top_k = Inr rs
     \<and> length rs = min top_k (length rows)
     \<and> sorted_desc (map snd rs)
     \<and> distinct (map fst rs)
     \<and> (\<forall>(i, s)\<in>set rs. i < length rows \<and> s = similarities_of rows raw ! i)
     \<and> (\<forall>j<length rows. j \<notin> fst ` set rs \<longrightarrow>
           (\<forall>(i, s)\<in>set rs. similarities_of rows raw ! j \<le> s))
     \<and> (keeps_ties_in_order (similarities_of rows raw)
            (np_argsort e (similarities_of rows raw)) \<longrightarrow> ties_descending rs)"
proof -
  let ?sims = "similarities_of rows raw"
  let ?order = "np_argsort e ?sims"
  have n: "length ?sims = length rows" by (simp add: similarities_of_def)
  note perm = argsort_contract_perm[OF assms(1), of ?sims]
  have "vector_search e self query top_k = Inr (top_of ?sims ?order top_k)"
    using assms(2-5) perm(1) by (intro vector_search_ready) (simp_all add: n)
  moreover note top_of_props[OF perm, of top_k]
  moreover have "keeps_ties_in_order ?sims ?order \<longrightarrow> ties_descending (top_of ?sims ?order top_k)"
    using top_of_ties by blast
  ultimately show ?thesis by (simp add: n)
qed

theorem vector_search_top_k_witness:
  "argsort_contract (np_argsort env1)
   \<and> keeps_ties_in_order (similarities_of [[1], [1]] [1])
        (np_argsort env1 (similarities_of [[1], [1]] [1]))
   \<and> vector_search env1 store_twins ''roti'' 2
        = Inr [(1, 10000000000 / 10000000001), (0, 10000000000 / 10000000001)]
   \<and> ties_descending [(1, 10000000000 / 10000000001), (0, 10000000000 / 10000000001)]
   \<and> sorted_desc [10000000000 / 10000000001, 10000000000 / 10000000001]"
proof -
  have c: "argsort_contract (np_argsort env1)"
    by (simp add: env1_def env0_def stable_argsort_contract)
  have k: "keeps_ties_in_order (similarities_of [[1], [1]] [1])
        (np_argsort env1 (similarities_of [[1], [1]] [1]))"
    by (simp add: keeps_ties_in_order_def env1_def env0_def sims_twins argsort_twins)
  show ?thesis
    using vector_search_top_k[of env1 store_twins "''roti''" "[1]" "[[1], [1]]" 2] c k
      search_twins
    by (simp add: env1_def env0_def store_twins_def)
qed

text \<open>
  The claim as stated fails: two rows with the same similarity come out with index 1
  before index 0 under a stable argsort, not in ascending index order.
\<close>

theorem vector_tie_counterexample:
  "argsort_contract (np_argsort env1)
   \<and> vector_search env1 store_twins ''roti'' 2
       = Inr [(1, 10000000000 / 10000000001), (0, 10000000000 / 10000000001)]
   \<and> \<not> ties_ascending [(1, 10000000000 / 10000000001), (0, 10000000000 / 10000000001)]"
  using search_twins
  by (simp add: env1_def env0_def stable_argsort_contract ties_ascending_def)


subsection \<open>Engine: dicts and candidates\<close>

lemma dict_get_update_other:
  "k \<noteq> k' \<Longrightarrow> dict_get (AList.update k v d) k' dflt = dict_get d k' dflt"
  by (simp add: dict_get_def update_conv')

lemma map_of_update_other:
  "k \<noteq> k' \<Longrightarrow> map_of (AList.update k v d) k' = map_of d k'"
  by (simp add: update_conv')

lemma code_of_candidate [simp]: "code_of (candidate_of doc s i) = code_of doc"
  by (simp add: code_of_def candidate_of_def dict_get_update_other)

lemma textual_candidate [simp]: "textual (candidate_of doc s i) = textual doc"
  by (simp add: textual_def candidate_of_def dict_get_update_other)

lemma has_rrf_candidate [simp]: "has_rrf_score (candidate_of doc s i)"
  by (simp add: has_rrf_score_def candidate_of_def update_conv')

lemma has_rrf_scored [simp]: "has_rrf_score (scored c r) = has_rrf_score c"
  by (simp add: has_rrf_score_def scored_def update_conv')

lemma has_rrf_delete [simp]:
  "has_rrf_score (AList.delete ''_doc_idx'' r) = has_rrf_score r"
  by (simp add: has_rrf_score_def delete_conv')

lemma no_doc_idx_delete [simp]: "map_of (AList.delete ''_doc_idx'' r) ''_doc_idx'' = None"
  by (simp add: delete_conv')

subsection \<open>The walk over the fused ranking\<close>

lemma build_candidates_first:
  "build_candidates docs xs (entry_code docs ` set before) = Inr cands \<Longrightarrow>
   cands = map (entry_candidate docs) (first_occurrences (entry_code docs) before xs)"
proof (induction xs arbitrary: before cands)
  case Nil
  then show ?case by simp
next
  case (Cons x xs)
  obtain i s where x: "x = (i, s)" by (cases x)
  from Cons.prems x have inr: "i < length docs"
    by (auto split: if_splits)
  show ?case
  proof (cases "entry_code docs x \<in> entry_code docs ` set before")
    case True
    then have same: "entry_code docs ` set (before @ [x]) = entry_code docs ` set before"
      by auto
    from True Cons.prems x inr
    have "build_candidates docs xs (entry_code docs ` set before) = Inr cands"
      by (simp add: entry_code_def code_of_def Let_def)
    then have "build_candidates docs xs (entry_code docs ` set (before @ [x])) = Inr cands"
      by (simp only: same)
    from Cons.IH[OF this] True show ?thesis by simp
  next
    case False
    have ins: "entry_code docs ` set (before @ [x])
                 = insert (entry_code docs x) (entry_code docs ` set before)"
      by auto
    from False Cons.prems x inr obtain rest where
      rest: "build_candidates docs xs (insert (entry_code docs x) (entry_code docs ` set before)) = Inr rest"
      and cands: "cands = entry_candidate docs x # rest"
      by (auto simp: entry_code_def entry_candidate_def code_of_def Let_def split: sum.splits)
    from rest have "build_candidates docs xs (entry_code docs ` set (before @ [x])) = Inr rest"
      by (simp only: ins)
    from Cons.IH[OF this] cands False show ?thesis by simp
  qed
qed

lemma build_candidates_returns:
  "\<forall>x\<in>set xs. fst x < length docs \<Longrightarrow> \<exists>cands. build_candidates docs xs seen = Inr cands"
proof (induction xs arbitrary: seen)
  case Nil
  then show ?case by simp
next
  case (Cons x xs)
  obtain i s where x: "x = (i, s)" by (cases x)
  from Cons.prems have tl: "\<forall>x\<in>set xs. fst x < length docs" by simp
  from Cons.IH[OF tl] show ?case
    using Cons.prems x by (auto simp: Let_def split: sum.splits) (metis Inl_Inr_False)+
qed

lemma build_candidates_in_range:
  "build_candidates docs xs seen = Inr cands \<Longrightarrow>
   \<forall>c\<in>set cands. \<exists>x\<in>set xs. fst x < length docs \<and> c = entry_candidate docs x"
proof (induction xs arbitrary: seen cands)
  case Nil
  then show ?case by simp
next
  case (Cons x xs)
  obtain i s where x: "x = (i, s)" by (cases x)
  from Cons.prems x have inr: "i < length docs"
    by (auto split: if_splits)
  show ?case
  proof (cases "code_of (docs ! i) \<in> seen")
    case True
    with Cons.prems x inr have "build_candidates docs xs seen = Inr cands"
      by (simp add: code_of_def Let_def)
    from Cons.IH[OF this] show ?thesis by auto
  next
    case False
    with Cons.prems x inr obtain rest where
      rest: "build_candidates docs xs (insert (code_of (docs ! i)) seen) = Inr rest"
      and cands: "cands = entry_candidate docs x # rest"
      by (auto simp: entry_candidate_def code_of_def Let_def split: sum.splits)
    from Cons.IH[OF rest] cands x inr show ?thesis by auto
  qed
qed

lemma first_occurrences_subset:
  "set (first_occurrences key before xs) \<subseteq> set xs"
  by (induction xs arbitrary: before) auto

lemma first_occurrences_length:
  "length (first_occurrences key before xs) \<le> length xs"
  by (induction xs arbitrary: before) (auto simp: le_SucI)

lemma first_occurrences_keys:
  "key ` set (first_occurrences key before xs) = key ` set xs - key ` set before"
  by (induction xs arbitrary: before) auto

lemma first_occurrences_distinct:
  "distinct (map key (first_occurrences key before xs))"
proof (induction xs arbitrary: before)
  case Nil
  then show ?case by simp
next
  case (Cons x xs)
  have "key x \<notin> key ` set (first_occurrences key (before @ [x]) xs)"
    by (simp add: first_occurrences_keys)
  with Cons show ?case by auto
qed

subsection \<open>The re-ranker\<close>

lemma render_candidates_textual:
  "list_all textual cs \<Longrightarrow> \<exists>rendered. render_candidates i cs = Inr rendered"
proof (induction cs arbitrary: i)
  case Nil
  then show ?case by simp
next
  case (Cons c cs)
  from Cons.prems have "textual c" by simp
  then obtain line where "render_candidate i c = Inr line"
    by (auto simp: textual_def render_candidate_def split: pyval.splits)
  moreover from Cons obtain rendered where "render_candidates (Suc i) cs = Inr rendered"
    by fastforce
  ultimately show ?case by simp
qed

lemma map_rankings_has_rrf:
  "map_rankings cs items = Some reranked \<Longrightarrow> list_all has_rrf_score cs \<Longrightarrow>
   list_all has_rrf_score reranked"
proof (induction cs items arbitrary: reranked rule: map_rankings.induct)
  case (1 candidates)
  then show ?case by simp
next
  case (2 candidates rest)
  then show ?case by simp
next
  case (3 candidates r rest)
  note eq = \<open>map_rankings candidates (RankDict r # rest) = Some reranked\<close>
  note all = \<open>list_all has_rrf_score candidates\<close>
  show ?case
  proof (cases "index_of_item r")
    case (IntIndex idx)
    show ?thesis
    proof (cases "0 \<le> idx \<and> idx < int (length candidates)")
      case True
      with eq IntIndex obtain rr where
        rr: "map_rankings candidates rest = Some rr"
        and rer: "reranked = scored (candidates ! nat idx) r # rr"
        by (auto split: option.splits)
      from True have "nat idx < length candidates" by linarith
      with all have "has_rrf_score (candidates ! nat idx)"
        by (simp add: list_all_length)
      moreover have "list_all has_rrf_score rr"
        using "3.IH" IntIndex True rr all by blast
      ultimately show ?thesis using rer by simp
    next
      case False
      with eq IntIndex have "map_rankings candidates rest = Some reranked"
        by (auto split: if_splits)
      then show ?thesis
        using "3.IH" IntIndex False all by blast
    qed
  next
    case (FloatIndex x)
    with eq have nr: "\<not> (0 \<le> x \<and> x < real (length candidates))"
      and "map_rankings candidates rest = Some reranked"
      by (auto split: if_splits)
    then show ?thesis
      using "3.IH" FloatIndex all by blast
  next
    case NoIndex
    with eq show ?thesis by simp
  qed
qed

lemma take_take_min: "take k (take 15 cs) = take (min k 15) cs"
  by (simp add: min.commute)

lemma rerank_has_rrf:
  assumes "rerank e query cs top_k = Inr final" and "list_all has_rrf_score cs"
  shows "list_all has_rrf_score final"
proof (cases "cs = []")
  case True
  with assms show ?thesis by (simp add: rerank_def)
next
  case False
  have t15: "list_all has_rrf_score (take 15 cs)"
    using assms(2) by (auto simp: list_all_iff dest: in_set_takeD)
  from assms(1) False obtain rendered where
    r: "render_candidates 0 (take 15 cs) = Inr rendered"
    by (auto simp: rerank_def Let_def split: sum.splits)
  show ?thesis
  proof (cases "judged (take 15 cs) top_k (judge e query rendered)")
    case None
    with assms(1) False r have "final = take top_k (take 15 cs)"
      by (simp add: rerank_def Let_def)
    then have "set final \<subseteq> set (take 15 cs)"
      by (simp only: set_take_subset)
    with t15 show ?thesis
      by (auto simp: list_all_iff)
  next
    case (Some reranked)
    with assms(1) False r have f: "final = reranked"
      by (simp add: rerank_def Let_def)
    from Some obtain items where
      "map_rankings (take 15 cs) (take top_k items) = Some reranked"
      by (auto simp: judged_def split: judge_reply.splits)
    from map_rankings_has_rrf[OF this t15] f show ?thesis by simp
  qed
qed

lemma rerank_fallback:
  assumes "cs \<noteq> []" and "render_candidates 0 (take 15 cs) = Inr rendered"
    and "judged (take 15 cs) top_k (judge e query rendered) = None"
  shows "rerank e query cs top_k = Inr (take (min top_k 15) cs)"
  using assms by (simp add: rerank_def Let_def take_take_min)

subsection \<open>The pipeline\<close>

lemma build_candidates_has_rrf:
  assumes "build_candidates docs xs seen = Inr cands"
  shows "list_all has_rrf_score cands"
  using build_candidates_in_range[OF assms] by (auto simp: list_all_iff entry_candidate_def)

lemma build_candidates_textual:
  assumes "build_candidates docs xs seen = Inr cands" and "\<forall>d\<in>set docs. textual d"
  shows "list_all textual cands"
  using build_candidates_in_range[OF assms(1)] assms(2)
  by (auto simp: list_all_iff entry_candidate_def)

lemma clean_up_props:
  "list_all has_rrf_score final \<Longrightarrow>
   \<forall>r\<in>set (clean_up final). map_of r ''_doc_idx'' = None \<and> has_rrf_score r"
  by (auto simp: clean_up_def list_all_iff)

lemma search_results_fields:
  assumes "search e self query top_k use_reranking retrieval_top_k = Inr response"
  shows "\<forall>r\<in>set (results response). map_of r ''_doc_idx'' = None \<and> has_rrf_score r"
proof (cases "is_ready self")
  case False
  with assms show ?thesis by (auto simp: search_def)
next
  case True
  with assms obtain bm25_results vector_results candidates final where
    cands: "build_candidates (documents self)
              (take retrieval_top_k (reciprocal_rank_fusion [bm25_results, vector_results] 60)) {}
            = Inr candidates"
    and final: "(if use_reranking \<and> candidates \<noteq> [] then rerank e query candidates top_k
                 else Inr (take top_k candidates)) = Inr final"
    and resp: "results response = clean_up final"
    by (auto simp: search_def Let_def split: sum.splits)
  have c: "list_all has_rrf_score candidates"
    using cands by (rule build_candidates_has_rrf)
  have "list_all has_rrf_score final"
  proof (cases "use_reranking \<and> candidates \<noteq> []")
    case True
    with final have "rerank e query candidates top_k = Inr final" by simp
    from rerank_has_rrf[OF this c] show ?thesis .
  next
    case False
    with final have "final = take top_k candidates" by auto
    with c show ?thesis by (auto simp: list_all_iff dest: in_set_takeD)
  qed
  with resp show ?thesis by (simp add: clean_up_props)
qed

lemma search_judge_down:
  assumes down: "\<forall>cs rendered. judged cs top_k (judge e query rendered) = None"
    and strs: "\<forall>d\<in>set (documents self). textual d"
  shows "search e self query top_k True retrieval_top_k
           = search e self query (min top_k 15) False retrieval_top_k"
proof -
  have step: "(if candidates \<noteq> [] then rerank e query candidates top_k
               else Inr (take top_k candidates))
              = Inr (take (min top_k 15) candidates)"
    if "build_candidates (documents self) xs {} = Inr candidates" for xs candidates
  proof (cases "candidates = []")
    case True
    then show ?thesis by simp
  next
    case False
    have "list_all textual (take 15 candidates)"
      using build_candidates_textual[OF that strs]
      by (auto simp: list_all_iff dest: in_set_takeD)
    then obtain rendered where "render_candidates 0 (take 15 candidates) = Inr rendered"
      using render_candidates_textual by blast
    from rerank_fallback[OF False this] down False show ?thesis by simp
  qed
  show ?thesis
  proof (cases "is_ready self")
    case False
    then show ?thesis by (simp add: search_def)
  next
    case True
    show ?thesis
    proof (cases "bm25_search (bm25 self) query retrieval_top_k")
      case (Inl err)
      with True show ?thesis by (simp add: search_def)
    next
      case b: (Inr bm25_results)
      show ?thesis
      proof (cases "vector_search e (vector_store self) query retrieval_top_k")
        case (Inl err)
        with True b show ?thesis by (simp add: search_def)
      next
        case v: (Inr vector_results)
        show ?thesis
        proof (cases "build_candidates (documents self)
            (take retrieval_top_k (reciprocal_rank_fusion [bm25_results, vector_results] 60)) {}")
          case (Inl err)
          with True b v show ?thesis by (simp add: search_def Let_def)
        next
          case c: (Inr candidates)
          from step[OF c] True b v c show ?thesis
            by (simp add: search_def Let_def)
        qed
      qed
    qed
  qed
qed

subsection \<open>Engine on the concrete inputs\<close>

lemma vector_twins:
  "vector_search env1 store_twins ''roti'' n
     = Inr (take n [(1, 10000000000 / 10000000001), (0, 10000000000 / 10000000001)])"
proof -
  have "vector_search env1 store_twins ''roti'' n
     = Inr (top_of (similarities_of [[1], [1]] [1]) (np_argsort env1 (similarities_of [[1], [1]] [1])) n)"
    by (rule vector_search_ready)
       (simp_all add: env1_def env0_def store_twins_def sims_twins argsort_twins
          atLeast0LessThan lessThan_Suc insert_commute numeral_2_eq_2)
  then show ?thesis
    by (simp add: env1_def env0_def sims_twins argsort_twins top_of_def flip: take_map)
qed

lemma fused_roti:
  "reciprocal_rank_fusion [[(Suc 0, a), (0, b)], [(Suc 0, c), (0, d)]] 60
     = [(Suc 0, 2 / 61), (0, 1 / 31)]"
  by (simp add: reciprocal_rank_fusion_def rrf_scores_of_def rrf_add_def)

lemma candidates_roti:
  "build_candidates corpus_roti [(Suc 0, 2 / 61), (0, 1 / 31)] {} =
     Inr [[(''kode_kbli'', PStr ''10710''), (''judul'', PStr ''roti''),
           (''rrf_score'', PFloat (2 / 61)), (''_doc_idx'', PInt 1)],
          [(''kode_kbli'', PStr ''47211''), (''judul'', PStr ''jual roti''),
           (''rrf_score'', PFloat (1 / 31)), (''_doc_idx'', PInt 0)]]"
  by (simp add: corpus_roti_def dict_get_def candidate_of_def)

lemma search_roti_plain:
  "search env1 engine_roti ''roti'' 5 False 20 =
     Inr (SearchResponse ''roti'' 2 2 2
       [[(''kode_kbli'', PStr ''10710''), (''judul'', PStr ''roti''),
         (''rrf_score'', PFloat (2 / 61))],
        [(''kode_kbli'', PStr ''47211''), (''judul'', PStr ''jual roti''),
         (''rrf_score'', PFloat (1 / 31))]])"
  by (simp add: search_def engine_roti_def search_roti vector_twins fused_roti candidates_roti
      clean_up_def Let_def candidate_of_def del: build_candidates.simps)

lemma search_plain_length:
  assumes "search e self query top_k False retrieval_top_k = Inr response"
  shows "length (results response) \<le> top_k"
proof (cases "is_ready self")
  case False
  with assms show ?thesis by (auto simp: search_def)
next
  case True
  with assms obtain candidates :: "pydict list" where
    "results response = clean_up (take top_k candidates)"
    by (auto simp: search_def Let_def split: sum.splits)
  then show ?thesis by (simp add: clean_up_def)
qed

lemma render_twice:
  "render_candidates 0 (take 15 candidates_twice)
     = Inr [(1, PStr ''47211'', ''toko roti'', ''''), (2, PStr ''10710'', ''roti'', '''')]"
  by (simp add: candidates_twice_def render_candidate_def dict_get_def)

lemma judge_down_env1: "judged cs top_k (judge env1 query rendered) = None"
  by (simp add: env1_def env0_def judged_def)

lemma textual_roti: "\<forall>d\<in>set (documents engine_roti). textual d"
  by (simp add: engine_roti_def corpus_roti_def textual_def dict_get_def)

lemma walk_twice:
  "build_candidates corpus_twice (take 3 fused_twice) {} = Inr candidates_twice"
  by (simp add: corpus_twice_def fused_twice_def candidates_twice_def dict_get_def
      candidate_of_def)

subsection \<open>Sixteen documents and a failing judge\<close>

lemma score_terms_empty_doc: "score_terms st [] dl q score = Inr score"
  by (induction q arbitrary: score) (auto split: option.splits)

lemma collect_scores_empty_docs:
  "\<forall>d\<in>set rest. d = [] \<Longrightarrow> idx + length rest \<le> length (doc_len st) \<Longrightarrow>
   collect_scores st q idx rest = Inr []"
  by (induction rest arbitrary: idx) (auto simp: score_document_def score_terms_empty_doc)

lemma bm25_search_empty_docs:
  assumes "\<forall>d\<in>set (bm25_documents st). d = []"
    and "length (doc_len st) = length (bm25_documents st)"
  shows "bm25_search st q k = Inr []"
  using collect_scores_empty_docs[OF assms(1), of 0 st "tokenize q"] assms(2)
  by (simp add: bm25_search_def Let_def)

lemma first_occurrences_all:
  "distinct (map key xs) \<Longrightarrow> key ` set xs \<inter> key ` set before = {} \<Longrightarrow>
   first_occurrences key before xs = xs"
proof (induction xs arbitrary: before)
  case Nil
  then show ?case by simp
next
  case (Cons x xs)
  from Cons.prems have "key x \<notin> key ` set before" by auto
  moreover have "first_occurrences key (before @ [x]) xs = xs"
    using Cons.prems by (intro Cons.IH) auto
  ultimately show ?case by simp
qed

lemma search_plain:
  assumes "is_ready self" and "bm25_search (bm25 self) query rk = Inr bm25_results"
    and "vector_search e (vector_store self) query rk = Inr vector_results"
    and "build_candidates (documents self)
           (take rk (reciprocal_rank_fusion [bm25_results, vector_results] 60)) {} = Inr candidates"
  shows "search e self query top_k False rk
     = Inr (SearchResponse query
              (length (reciprocal_rank_fusion [bm25_results, vector_results] 60))
              (length bm25_results) (length vector_results) (clean_up (take top_k candidates)))"
  using assms by (simp add: search_def Let_def)

lemma length_codes16: "length codes16 = 16"
  by (simp add: codes16_def)

lemma distinct_codes16: "distinct codes16"
  by (simp add: codes16_def)

lemma length_corpus16: "length corpus16 = 16"
  by (simp add: corpus16_def length_codes16)

lemma code_of_corpus16: "map code_of corpus16 = map KStr codes16"
  by (simp add: corpus16_def code_of_def dict_get_def comp_def)

lemma distinct_code_of_corpus16: "distinct (map code_of corpus16)"
  by (simp add: code_of_corpus16 distinct_map distinct_codes16 inj_on_def)

lemma textual_corpus16: "\<forall>d\<in>set (documents engine16). textual d"
  by (auto simp: engine16_def corpus16_def textual_def dict_get_def)

lemma bm25_corpus16: "bm25_search (bm25 engine16) query rk = Inr []"
proof (rule bm25_search_empty_docs)
  have "\<forall>doc\<in>set corpus16. combined_text env1 default_text_fields doc = ''  ''"
    by (auto simp: corpus16_def combined_text_def default_text_fields_def dict_get_def
        str_of_def)
  then show "\<forall>d\<in>set (bm25_documents (bm25 engine16)). d = []"
    by (auto simp: engine16_def fit_def Let_def tokenize_roti)
  show "length (doc_len (bm25 engine16)) = length (bm25_documents (bm25 engine16))"
    by (simp add: engine16_def fit_simps)
qed

lemma top_of_all:
  "length order \<le> k \<Longrightarrow> map fst (top_of sims order k) = rev order"
  by (simp add: top_of_def comp_def)

lemma vector_corpus16:
  "\<exists>vector_results. vector_search env1 (vector_store engine16) query 20 = Inr vector_results
     \<and> set (map fst vector_results) = {0..<16} \<and> distinct (map fst vector_results)"
proof -
  let ?sims = "similarities_of (replicate 16 [1]) [1]"
  let ?order = "np_argsort env1 ?sims"
  have c: "argsort_contract (np_argsort env1)"
    by (simp add: env1_def env0_def stable_argsort_contract)
  have n: "length ?sims = 16" by (simp add: similarities_of_def)
  note perm = argsort_contract_perm[OF c, of ?sims]
  have "vector_search env1 (vector_store engine16) query 20 = Inr (top_of ?sims ?order 20)"
    using perm(1) n
    by (intro vector_search_ready) (simp_all add: engine16_def env1_def list_all_iff)
  moreover have "map fst (top_of ?sims ?order 20) = rev ?order"
    using perm(3) n by (intro top_of_all) simp
  ultimately have v: "vector_search env1 (vector_store engine16) query 20
                        = Inr (top_of ?sims ?order 20)"
    and m: "map fst (top_of ?sims ?order 20) = rev ?order"
    by simp_all
  have "set (map fst (top_of ?sims ?order 20)) = {0..<16}"
    by (simp only: m set_rev perm(1) n)
  moreover have "distinct (map fst (top_of ?sims ?order 20))"
    by (simp only: m distinct_rev perm(2))
  ultimately show ?thesis using v by blast
qed

lemma candidates_corpus16:
  assumes "set (map fst vector_results) = {0..<16}" and "distinct (map fst vector_results)"
  shows "\<exists>candidates. build_candidates corpus16
            (take 20 (reciprocal_rank_fusion [[], vector_results] 60)) {} = Inr candidates
          \<and> length candidates = 16"
proof -
  let ?fused = "reciprocal_rank_fusion [[], vector_results] 60"
  have keys: "fst ` set ?fused = {0..<16}"
    using keys_fusion[of "[[], vector_results]" 60] assms(1) by (simp add: docs_of_def)
  have dist: "distinct (map fst ?fused)" by (rule distinct_fusion)
  have "length (map fst ?fused) = card (set (map fst ?fused))"
    using dist by (simp only: distinct_card)
  then have len: "length ?fused = 16" using keys by simp
  then have tk: "take 20 ?fused = ?fused" by simp
  have range: "\<forall>x\<in>set ?fused. fst x < length corpus16"
  proof
    fix x assume "x \<in> set ?fused"
    then have "fst x \<in> fst ` set ?fused" by (rule imageI)
    then show "fst x < length corpus16" by (simp only: keys length_corpus16) simp
  qed
  then obtain candidates where c: "build_candidates corpus16 ?fused {} = Inr candidates"
    using build_candidates_returns by blast
  then have "build_candidates corpus16 ?fused (entry_code corpus16 ` set []) = Inr candidates"
    by simp
  then have eq: "candidates = map (entry_candidate corpus16)
                   (first_occurrences (entry_code corpus16) [] ?fused)"
    by (rule build_candidates_first)
  have inj: "inj_on (\<lambda>i. code_of (corpus16 ! i)) {0..<16}"
  proof (rule inj_onI)
    fix i j assume i: "i \<in> {0..<16}" and j: "j \<in> {0..<16}"
      and e: "code_of (corpus16 ! i) = code_of (corpus16 ! j)"
    from i j have li: "i < length (map code_of corpus16)" and lj: "j < length (map code_of corpus16)"
      by (simp_all add: length_corpus16)
    from e li lj have "map code_of corpus16 ! i = map code_of corpus16 ! j"
      by simp
    with nth_eq_iff_index_eq[OF distinct_code_of_corpus16 li lj] show "i = j"
      by blast
  qed
  have "map (entry_code corpus16) ?fused = map (\<lambda>i. code_of (corpus16 ! i)) (map fst ?fused)"
    by (simp add: entry_code_def comp_def)
  moreover have "distinct (map (\<lambda>i. code_of (corpus16 ! i)) (map fst ?fused))"
  proof (rule iffD2[OF distinct_map], rule conjI)
    show "distinct (map fst ?fused)" by (rule dist)
    have "set (map fst ?fused) = {0..<16}" using keys by simp
    with inj show "inj_on (\<lambda>i. code_of (corpus16 ! i)) (set (map fst ?fused))"
      by (simp only:)
  qed
  ultimately have "distinct (map (entry_code corpus16) ?fused)" by (simp only:)
  then have "first_occurrences (entry_code corpus16) [] ?fused = ?fused"
    by (intro first_occurrences_all) simp_all
  with eq len have "length candidates = 16" by simp
  with c tk show ?thesis by simp
qed

lemma counts_corpus16:
  "result_count (search env1 engine16 ''roti'' 16 False 20) = Some 16
   \<and> result_count (search env1 engine16 ''roti'' 16 True 20) = Some 15"
proof -
  obtain vector_results where
    v: "vector_search env1 (vector_store engine16) ''roti'' 20 = Inr vector_results"
    and s: "set (map fst vector_results) = {0..<16}" and d: "distinct (map fst vector_results)"
    using vector_corpus16 by blast
  obtain candidates where
    c: "build_candidates (documents engine16)
          (take 20 (reciprocal_rank_fusion [[], vector_results] 60)) {} = Inr candidates"
    and l: "length candidates = 16"
    using candidates_corpus16[OF s d] by (auto simp: engine16_def)
  have r: "is_ready engine16" by (simp add: engine16_def)
  note plain = search_plain[OF r bm25_corpus16 v c]
  have "search env1 engine16 ''roti'' 16 True 20 = search env1 engine16 ''roti'' (min 16 15) False 20"
    using judge_down_env1 textual_corpus16 by (intro search_judge_down) auto
  then show ?thesis
    using plain[of 16] plain[of 15] l by (simp add: result_count_def clean_up_def)
qed

lemma textual_sixteen: "list_all textual sixteen_candidates"
proof -
  have "textual (corpus16 ! i)" if "i < 16" for i
    using textual_corpus16 that nth_mem[of i corpus16]
    by (simp add: engine16_def length_corpus16)
  then show ?thesis
    by (simp add: sixteen_candidates_def list_all_iff)
qed

subsection \<open>Engine: the claims\<close>

text \<open>
  C4. A search on an engine that is not ready (\<open>initialize\<close> has not set \<open>is_ready\<close>)
  returns the not-ready error dict with an empty results list, whatever the query, the
  other arguments and the state of the indexes: nothing is indexed and nothing is raised.
\<close>

theorem search_not_ready:
  "\<not> is_ready self \<Longrightarrow>
   search e self query top_k use_reranking retrieval_top_k
     = Inr (ErrorResponse ''Search engine not initialized'' [])"
  by (simp add: search_def)

theorem search_not_ready_witness:
  "\<not> is_ready HybridSearchEngine
   \<and> search env0 HybridSearchEngine ''roti'' 5 True 20
       = Inr (ErrorResponse ''Search engine not initialized'' [])
   \<and> results (ErrorResponse ''Search engine not initialized'' []) = []"
  using search_not_ready[of HybridSearchEngine env0 "''roti''" 5 True 20]
  by (simp add: HybridSearchEngine_def)

text \<open>
  C1, as amended. Every entry of the results list of a completed search has lost the
  source document index (\<open>_doc_idx\<close>); the fusion score (\<open>rrf_score\<close>) is not stripped: it
  is still on every entry.
\<close>

theorem results_keep_fusion_score:
  "search e self query top_k use_reranking retrieval_top_k = Inr response \<Longrightarrow>
   \<forall>r\<in>set (results response). map_of r ''_doc_idx'' = None \<and> has_rrf_score r"
  by (rule search_results_fields)

theorem results_keep_fusion_score_witness:
  "search env1 engine_roti ''roti'' 5 False 20 =
     Inr (SearchResponse ''roti'' 2 2 2
       [[(''kode_kbli'', PStr ''10710''), (''judul'', PStr ''roti''),
         (''rrf_score'', PFloat (2 / 61))],
        [(''kode_kbli'', PStr ''47211''), (''judul'', PStr ''jual roti''),
         (''rrf_score'', PFloat (1 / 31))]])
   \<and> map_of [(''kode_kbli'', PStr ''10710''), (''judul'', PStr ''roti''),
         (''rrf_score'', PFloat (2 / 61))] ''_doc_idx'' = None
   \<and> has_rrf_score [(''kode_kbli'', PStr ''10710''), (''judul'', PStr ''roti''),
         (''rrf_score'', PFloat (2 / 61))]"
  using results_keep_fusion_score[OF search_roti_plain] search_roti_plain
  by simp

text \<open>
  The claim as stated fails: the entries returned for the two-document corpus carry
  their fusion score.
\<close>

theorem fusion_score_not_stripped_counterexample:
  "search env1 engine_roti ''roti'' 5 False 20 =
     Inr (SearchResponse ''roti'' 2 2 2
       [[(''kode_kbli'', PStr ''10710''), (''judul'', PStr ''roti''),
         (''rrf_score'', PFloat (2 / 61))],
        [(''kode_kbli'', PStr ''47211''), (''judul'', PStr ''jual roti''),
         (''rrf_score'', PFloat (1 / 31))]])
   \<and> map_of [(''kode_kbli'', PStr ''10710''), (''judul'', PStr ''roti''),
         (''rrf_score'', PFloat (2 / 61))] ''rrf_score'' = Some (PFloat (2 / 61))"
  using search_roti_plain by simp

text \<open>
  C8. The walk over the first \<open>retrieval_top_k\<close> entries of the fused ranking returns
  when every fused index is in range, and then the candidates are exactly the entries that
  no earlier entry shares its code with, in fused order: every later entry with a code
  already selected is skipped, the codes of the candidates are pairwise distinct, every
  code of the walked entries appears, and there are at most \<open>retrieval_top_k\<close>
  candidates.
\<close>

theorem candidates_deduplicated:
  "((\<forall>x\<in>set fused_ranking. fst x < length docs) \<longrightarrow>
      (\<exists>candidates. build_candidates docs (take retrieval_top_k fused_ranking) {} = Inr candidates))
   \<and> (build_candidates docs (take retrieval_top_k fused_ranking) {} = Inr candidates \<longrightarrow>
        candidates = map (entry_candidate docs)
          (first_occurrences (entry_code docs) [] (take retrieval_top_k fused_ranking))
        \<and> distinct (map code_of candidates)
        \<and> code_of ` set candidates = entry_code docs ` set (take retrieval_top_k fused_ranking)
        \<and> length candidates \<le> retrieval_top_k)"
proof (intro conjI impI)
  assume "\<forall>x\<in>set fused_ranking. fst x < length docs"
  then have "\<forall>x\<in>set (take retrieval_top_k fused_ranking). fst x < length docs"
    by (auto dest: in_set_takeD)
  then show "\<exists>candidates. build_candidates docs (take retrieval_top_k fused_ranking) {} = Inr candidates"
    by (rule build_candidates_returns)
next
  let ?prefix = "take retrieval_top_k fused_ranking"
  let ?firsts = "first_occurrences (entry_code docs) [] ?prefix"
  assume "build_candidates docs ?prefix {} = Inr candidates"
  then have "build_candidates docs ?prefix (entry_code docs ` set []) = Inr candidates"
    by simp
  then show eq: "candidates = map (entry_candidate docs) ?firsts"
    by (rule build_candidates_first)
  have codes: "map code_of candidates = map (entry_code docs) ?firsts"
    by (simp add: eq entry_candidate_def entry_code_def)
  show "distinct (map code_of candidates)"
    by (simp only: codes first_occurrences_distinct)
  have "code_of ` set candidates = set (map code_of candidates)" by simp
  also have "\<dots> = entry_code docs ` set ?firsts" by (simp only: codes set_map)
  also have "\<dots> = entry_code docs ` set ?prefix"
    by (simp add: first_occurrences_keys)
  finally show "code_of ` set candidates = entry_code docs ` set ?prefix" .
  have "length candidates = length ?firsts" by (simp add: eq)
  also have "\<dots> \<le> length ?prefix" by (rule first_occurrences_length)
  also have "\<dots> \<le> retrieval_top_k" by simp
  finally show "length candidates \<le> retrieval_top_k" .
qed

theorem candidates_deduplicated_witness:
  "build_candidates corpus_twice (take 3 fused_twice) {} = Inr candidates_twice
   \<and> candidates_twice = map (entry_candidate corpus_twice)
        (first_occurrences (entry_code corpus_twice) [] (take 3 fused_twice))
   \<and> first_occurrences (entry_code corpus_twice) [] (take 3 fused_twice)
        = [(2, 1 / 61), (1, 1 / 63)]
   \<and> distinct (map code_of candidates_twice)
   \<and> length candidates_twice \<le> 3"
proof -
  have "first_occurrences (entry_code corpus_twice) [] (take 3 fused_twice)
        = [(2, 1 / 61), (1, 1 / 63)]"
    by (simp add: fused_twice_def corpus_twice_def entry_code_def code_of_def dict_get_def)
  then show ?thesis
    using candidates_deduplicated[of fused_twice corpus_twice 3 candidates_twice] walk_twice
    by blast
qed


text \<open>
  C3, as amended. When the prompt can be rendered and the judge call, the parse of its
  reply or the mapping of its entries fails, \<open>rerank\<close> returns the first
  \<open>min top_k 15\<close> input candidates unscored: the candidate list is cut to 15 before the
  judge is asked. With a judge that fails and documents whose title and coverage are
  strings or absent, a search with re-ranking is the search without re-ranking for
  \<open>min top_k 15\<close> results, so it fails only where that search fails and returns at most
  \<open>min top_k 15\<close> entries.
\<close>

theorem judge_fallback:
  "(cs \<noteq> [] \<and> render_candidates 0 (take 15 cs) = Inr rendered
      \<and> judged (take 15 cs) top_k (judge e query rendered) = None
      \<longrightarrow> rerank e query cs top_k = Inr (take (min top_k 15) cs))
   \<and> ((\<forall>cs rendered. judged cs top_k (judge e query rendered) = None)
        \<and> (\<forall>d\<in>set (documents self). textual d)
      \<longrightarrow> search e self query top_k True retrieval_top_k
            = search e self query (min top_k 15) False retrieval_top_k
          \<and> (\<forall>response. search e self query top_k True retrieval_top_k = Inr response
                \<longrightarrow> length (results response) \<le> min top_k 15))"
proof (intro conjI impI)
  assume "cs \<noteq> [] \<and> render_candidates 0 (take 15 cs) = Inr rendered
      \<and> judged (take 15 cs) top_k (judge e query rendered) = None"
  then show "rerank e query cs top_k = Inr (take (min top_k 15) cs)"
    using rerank_fallback[of cs rendered top_k e query] by simp
next
  assume h: "(\<forall>cs rendered. judged cs top_k (judge e query rendered) = None)
        \<and> (\<forall>d\<in>set (documents self). textual d)"
  then show eq: "search e self query top_k True retrieval_top_k
            = search e self query (min top_k 15) False retrieval_top_k"
    using search_judge_down[of top_k e query self retrieval_top_k] by simp
  show "\<forall>response. search e self query top_k True retrieval_top_k = Inr response
                \<longrightarrow> length (results response) \<le> min top_k 15"
    using search_plain_length[of e self query "min top_k 15" retrieval_top_k] eq by simp
qed

theorem judge_fallback_witness:
  "rerank env1 ''roti'' candidates_twice 1 = Inr (take (min 1 15) candidates_twice)
   \<and> search env1 engine_roti ''roti'' 5 True 20 =
       Inr (SearchResponse ''roti'' 2 2 2
         [[(''kode_kbli'', PStr ''10710''), (''judul'', PStr ''roti''),
           (''rrf_score'', PFloat (2 / 61))],
          [(''kode_kbli'', PStr ''47211''), (''judul'', PStr ''jual roti''),
           (''rrf_score'', PFloat (1 / 31))]])
   \<and> search env1 engine_roti ''roti'' 5 True 20 = search env1 engine_roti ''roti'' 5 False 20"
proof -
  have ne: "candidates_twice \<noteq> []" by (simp add: candidates_twice_def)
  note th = judge_fallback[of candidates_twice
      "[(1, PStr ''47211'', ''toko roti'', ''''), (2, PStr ''10710'', ''roti'', '''')]"
      1 env1 "''roti''"]
    judge_fallback[of _ _ 5 env1 "''roti''" engine_roti 20]
  show ?thesis
    using th ne render_twice judge_down_env1 textual_roti search_roti_plain
    by simp
qed

text \<open>
  The claim as stated fails: with sixteen candidates and \<open>top_k = 16\<close>, a failing judge
  leaves fifteen results; over sixteen documents with sixteen codes the search returns
  sixteen results without re-ranking and fifteen with it.
\<close>

theorem judge_fallback_counterexample:
  "length sixteen_candidates = 16
   \<and> rerank env0 ''roti'' sixteen_candidates 16 = Inr (take 15 sixteen_candidates)
   \<and> length (take 15 sixteen_candidates) = 15
   \<and> result_count (search env1 engine16 ''roti'' 16 False 20) = Some 16
   \<and> result_count (search env1 engine16 ''roti'' 16 True 20) = Some 15"
proof -
  have len: "length sixteen_candidates = 16" by (simp add: sixteen_candidates_def)
  then have ne: "sixteen_candidates \<noteq> []" by auto
  have "list_all textual (take 15 sixteen_candidates)"
    using textual_sixteen by (auto simp: list_all_iff dest: in_set_takeD)
  then obtain rendered where r: "render_candidates 0 (take 15 sixteen_candidates) = Inr rendered"
    using render_candidates_textual by blast
  have "judged (take 15 sixteen_candidates) 16 (judge env0 ''roti'' rendered) = None"
    by (simp add: env0_def judged_def)
  from rerank_fallback[OF ne r this] len counts_corpus16 show ?thesis by simp
qed
end
